theory Spec2Isabelle
  imports Complex_Main "HOL-Library.Sublist" "HOL-Library.AList"
begin

section \<open>Numbers of the bounds arrays\<close>

text \<open>
  The bounds accumulator of \<^verbatim>\<open>Renderer.bounds\<close> is a numpy array that starts at
  \<^verbatim>\<open>[inf, -inf, inf, -inf, inf, -inf]\<close>. Its entries are modelled in exact arithmetic:
  a finite entry is a real number, the two sentinels are values of their own. The
  bounding box an actor reports (\<^verbatim>\<open>GetBounds()\<close>) is six finite numbers.
\<close>

datatype ext = NInf | Fin real | PInf

text \<open>\<^verbatim>\<open>a < b\<close> on array entries.\<close>

fun ext_less :: "ext \<Rightarrow> ext \<Rightarrow> bool" where
  "ext_less NInf NInf = False"
| "ext_less NInf (Fin b) = True"
| "ext_less NInf PInf = True"
| "ext_less (Fin a) NInf = False"
| "ext_less (Fin a) (Fin b) = (a < b)"
| "ext_less (Fin a) PInf = True"
| "ext_less PInf b = False"

text \<open>Truth value of \<^verbatim>\<open>np.abs(x)\<close>: every entry but zero is true.\<close>

fun ext_abs_true :: "ext \<Rightarrow> bool" where
  "ext_abs_true (Fin a) = (\<bar>a\<bar> \<noteq> 0)"
| "ext_abs_true NInf = True"
| "ext_abs_true PInf = True"

text \<open>
  One element of \<^verbatim>\<open>np.allclose(a, b)\<close> with numpy's defaults
  \<^verbatim>\<open>rtol = 1e-05\<close>, \<^verbatim>\<open>atol = 1e-08\<close>: \<^verbatim>\<open>|a - b| <= atol + rtol * |b|\<close>
  on finite entries; infinite entries are close only to themselves.
\<close>

fun isclose :: "ext \<Rightarrow> ext \<Rightarrow> bool" where
  "isclose (Fin a) (Fin b) = (\<bar>a - b\<bar> \<le> 1 / 100000000 + (1 / 100000) * \<bar>b\<bar>)"
| "isclose NInf NInf = True"
| "isclose PInf PInf = True"
| "isclose a b = False"

fun allclose :: "ext list \<Rightarrow> ext list \<Rightarrow> bool" where
  "allclose [] [] = True"
| "allclose (a # as) (b # bs) = (isclose a b \<and> allclose as bs)"
| "allclose as bs = False"

type_synonym box = "real \<times> real \<times> real \<times> real \<times> real \<times> real"

fun box_list :: "box \<Rightarrow> real list" where
  "box_list (x0, x1, y0, y1, z0, z1) = [x0, x1, y0, y1, z0, z1]"

type_synonym vec3 = "real \<times> real \<times> real"

section \<open>Actors, the plotter and the renderer\<close>

text \<open>
  A mapper is known by its identity. \<^verbatim>\<open>actor.GetMapper()\<close> either raises
  AttributeError (the prop has no such method), or returns a mapper or \<^verbatim>\<open>None\<close>.
\<close>

datatype mapper = NoneMapper | MapperId nat

datatype getmapper = AttributeError | Mapper mapper

text \<open>
  An actor is an opaque handle of the graphics subsystem. \<open>aid\<close> is its identity
  (\<^verbatim>\<open>id(actor)\<close>; \<^verbatim>\<open>v == actor\<close> on these handles compares identities),
  \<open>is_cube_axes\<close> is \<^verbatim>\<open>isinstance(actor, vtk.vtkCubeAxesActor)\<close>, \<open>GetBounds\<close> is
  \<open>None\<close> when the actor has no \<^verbatim>\<open>GetBounds\<close> or it returns \<^verbatim>\<open>None\<close>, and
  \<open>face_culling\<close> tells whether its property has \<^verbatim>\<open>BackfaceCullingOn\<close> and
  \<^verbatim>\<open>FrontfaceCullingOn\<close> (where it has not, \<^verbatim>\<open>add_actor\<close> swallows the AttributeError).
\<close>

record actor =
  aid :: nat
  is_cube_axes :: bool
  GetBounds :: "box option"
  GetMapper :: getmapper
  face_culling :: bool

text \<open>A \<^verbatim>\<open>vtk.vtkMapper\<close> handed to \<^verbatim>\<open>add_actor\<close>: its identity and the bounds of its data.\<close>

record vtk_mapper =
  mid :: nat
  mapper_bounds :: "box option"

datatype uinput = UMapper vtk_mapper | UActor actor

text \<open>The three values of \<^verbatim>\<open>reset_camera\<close>: \<^verbatim>\<open>True\<close>, \<^verbatim>\<open>False\<close>, \<^verbatim>\<open>None\<close>.\<close>

datatype reset_flag = RcTrue | RcFalse | RcNone

text \<open>The \<^verbatim>\<open>culling\<close> argument: a boolean or a string.\<close>

datatype culling = CullBool bool | CullStr string

datatype face = Backface | Frontface

text \<open>
  The argument of \<^verbatim>\<open>remove_actor\<close>: a name, an actor, an ordered collection of
  either, or \<^verbatim>\<open>None\<close>.
\<close>

datatype target = Name string | Obj actor | Coll "target list" | NoneT

datatype error = RuntimeError

text \<open>
  The plotter (\<^verbatim>\<open>self.parent\<close>) is a collaborator outside this module. The module reads
  and writes its colour-bar dictionaries \<^verbatim>\<open>_scalar_bar_mappers\<close>,
  \<^verbatim>\<open>_scalar_bar_slot_lookup\<close>, \<^verbatim>\<open>_scalar_bar_ranges\<close> and \<^verbatim>\<open>_scalar_bar_actors\<close>,
  which the plotter keeps under the same keys (the colour-bar titles): the model holds them
  as one table from title to entry. \<open>renders\<close> counts the calls of \<^verbatim>\<open>_render()\<close>.

  Modelled from the spec: \<^verbatim>\<open>plotter.remove_actor\<close> is not part of this module; section 1
  treats the plotting facade as an external collaborator, so the model records the request
  (\<open>removal_requests\<close>) and does not follow it into the renderers the plotter owns.
\<close>

record scalar_bar =
  sb_mappers :: "mapper list"
  sb_slot :: nat
  sb_range :: "real \<times> real"
  sb_actor :: actor

record plotter =
  scalar_bars :: "(string \<times> scalar_bar) list"
  scalar_bar_slots :: "nat list"
  renders :: nat
  removal_requests :: "(actor \<times> bool) list"

text \<open>
  The camera of the graphics subsystem. The model-transform matrix is only ever built by
  \<^verbatim>\<open>vtkTransform.Scale(x, y, z)\<close>, the diagonal matrix \<open>diag(x, y, z, 1)\<close>; the model keeps
  its three diagonal entries.
\<close>

record camera =
  position :: vec3
  focal_point :: vec3
  view_up :: vec3
  model_transform :: vec3

text \<open>
  The renderer. \<open>actors\<close> is the dictionary \<^verbatim>\<open>_actors\<close> in insertion order.
  \<open>box_object\<close> is \<open>None\<close> when the attribute \<^verbatim>\<open>_box_object\<close> does not exist and holds the
  bounds of the outline geometry otherwise. \<open>cube_axes_actor\<close> is \<open>None\<close> when the attribute
  does not exist; otherwise it holds the actor, the bounds last given to its
  \<^verbatim>\<open>SetBounds\<close> and its 2D mode. \<open>props\<close>, \<open>pickable\<close>, \<open>culled\<close>, \<open>fits\<close> and
  \<open>clip_resets\<close> are the state of the graphics subsystem this module drives: the actors
  attached to the renderer, the flags set on actors, the number of calls of
  \<^verbatim>\<open>ResetCamera()\<close> and of \<^verbatim>\<open>ResetCameraClippingRange()\<close>. \<open>next_id\<close> is the identity
  the next object created by the module receives.
\<close>

record renderer =
  actors :: "(string \<times> actor) list"
  parent :: plotter
  camera_set :: bool
  bounding_box_actor :: "actor option"
  box_object :: "ext list option"
  cube_axes_actor :: "(actor \<times> ext list \<times> bool) option"
  scale :: vec3
  camera :: camera
  props :: "nat list"
  pickable :: "(nat \<times> bool) list"
  culled :: "(nat \<times> face) list"
  fits :: nat
  clip_resets :: nat
  next_id :: nat

section \<open>The aggregate bounds\<close>

text \<open>\<^verbatim>\<open>update_axis(ax)\<close> of \<^verbatim>\<open>Renderer.bounds\<close>, on the accumulator \<open>the_bounds\<close>.\<close>

definition update_axis :: "real list \<Rightarrow> nat \<Rightarrow> ext list \<Rightarrow> ext list" where
  "update_axis bnds ax the_bounds =
     (let tb = (if ext_less (Fin (bnds ! (ax * 2))) (the_bounds ! (ax * 2))
                then the_bounds[ax * 2 := Fin (bnds ! (ax * 2))] else the_bounds)
      in if ext_less (tb ! (ax * 2 + 1)) (Fin (bnds ! (ax * 2 + 1)))
         then tb[ax * 2 + 1 := Fin (bnds ! (ax * 2 + 1))] else tb)"

text \<open>\<^verbatim>\<open>_update_bounds(bounds)\<close>: the three axes in turn.\<close>

definition update_bounds :: "real list \<Rightarrow> ext list \<Rightarrow> ext list" where
  "update_bounds bnds the_bounds = fold (update_axis bnds) [0, 1, 2] the_bounds"

text \<open>The test of the loop over \<^verbatim>\<open>self._actors.values()\<close>: which actors are folded in.\<close>

definition is_bounding_box_actor :: "renderer \<Rightarrow> actor \<Rightarrow> bool" where
  "is_bounding_box_actor r a =
     (case bounding_box_actor r of None \<Rightarrow> False | Some b \<Rightarrow> aid a = aid b)"

definition fold_actor :: "renderer \<Rightarrow> actor \<Rightarrow> ext list \<Rightarrow> ext list" where
  "fold_actor r a the_bounds =
     (if is_cube_axes a then the_bounds
      else case GetBounds a of
             None \<Rightarrow> the_bounds
           | Some b \<Rightarrow> if is_bounding_box_actor r a then the_bounds
                       else update_bounds (box_list b) the_bounds)"

text \<open>
  The last step of \<^verbatim>\<open>Renderer.bounds\<close>:
  \<^verbatim>\<open>if np.any(np.abs(the_bounds)): the_bounds[the_bounds == np.inf] = -1.0;
  the_bounds[the_bounds == -np.inf] = 1.0\<close>.
\<close>

definition replace_infinite :: "ext list \<Rightarrow> ext list" where
  "replace_infinite the_bounds =
     (if list_ex ext_abs_true the_bounds
      then map (\<lambda>x. if x = NInf then Fin 1 else x)
             (map (\<lambda>x. if x = PInf then Fin (- 1) else x) the_bounds)
      else the_bounds)"

definition initial_bounds :: "ext list" where
  "initial_bounds = [PInf, NInf, PInf, NInf, PInf, NInf]"

definition bounds :: "renderer \<Rightarrow> ext list" where
  "bounds r = replace_infinite (fold (fold_actor r) (map snd (actors r)) initial_bounds)"

section \<open>Collaborators\<close>

text \<open>
  \<^verbatim>\<open>_remove_mapper_from_plotter\<close>, one title of the loop: \<^verbatim>\<open>list.remove\<close> drops the
  first occurrence of the mapper (a ValueError is swallowed); a colour bar left with no
  mapper loses its entries, its actor is handed to \<^verbatim>\<open>plotter.remove_actor\<close> and its slot
  is returned to \<^verbatim>\<open>_scalar_bar_slots\<close>.
\<close>

definition drop_mapper :: "mapper \<Rightarrow> bool \<Rightarrow> string \<Rightarrow> plotter \<Rightarrow> plotter" where
  "drop_mapper m reset_camera title p =
     (case map_of (scalar_bars p) title of
        None \<Rightarrow> p
      | Some sb \<Rightarrow>
          (let ms = remove1 m (sb_mappers sb) in
           if length ms < 1
           then p\<lparr>scalar_bars := AList.delete title (scalar_bars p),
                  removal_requests := removal_requests p @ [(sb_actor sb, reset_camera)],
                  scalar_bar_slots := List.insert (sb_slot sb) (scalar_bar_slots p)\<rparr>
           else p\<lparr>scalar_bars := AList.update title (sb\<lparr>sb_mappers := ms\<rparr>) (scalar_bars p)\<rparr>))"

definition remove_mapper_from_plotter :: "plotter \<Rightarrow> actor \<Rightarrow> bool \<Rightarrow> plotter" where
  "remove_mapper_from_plotter p a reset_camera =
     (case GetMapper a of
        AttributeError \<Rightarrow> p
      | Mapper m \<Rightarrow> fold (drop_mapper m reset_camera) (map fst (scalar_bars p)) p)"

text \<open>\<^verbatim>\<open>self.parent._render()\<close>: a redraw request.\<close>

definition render :: "renderer \<Rightarrow> renderer" where
  "render r = r\<lparr>parent := (parent r)\<lparr>renders := Suc (renders (parent r))\<rparr>\<rparr>"

text \<open>
  The graphics subsystem: \<^verbatim>\<open>AddActor\<close> attaches a prop once, \<^verbatim>\<open>RemoveActor\<close> detaches
  it, \<^verbatim>\<open>ResetCamera\<close> refits the camera to the visible props (the model counts the
  refits), \<^verbatim>\<open>ResetCameraClippingRange\<close> leaves the camera where it is.
\<close>

definition AddActor :: "actor \<Rightarrow> renderer \<Rightarrow> renderer" where
  "AddActor a r = r\<lparr>props := (if aid a \<in> set (props r) then props r else props r @ [aid a])\<rparr>"

definition RemoveActor :: "actor \<Rightarrow> renderer \<Rightarrow> renderer" where
  "RemoveActor a r = r\<lparr>props := removeAll (aid a) (props r)\<rparr>"

definition ResetCamera :: "renderer \<Rightarrow> renderer" where
  "ResetCamera r = r\<lparr>fits := Suc (fits r)\<rparr>"

definition ResetCameraClippingRange :: "renderer \<Rightarrow> renderer" where
  "ResetCameraClippingRange r = r\<lparr>clip_resets := Suc (clip_resets r)\<rparr>"

definition SetPickable :: "actor \<Rightarrow> bool \<Rightarrow> renderer \<Rightarrow> renderer" where
  "SetPickable a b r = r\<lparr>pickable := AList.update (aid a) b (pickable r)\<rparr>"

definition CullingOn :: "actor \<Rightarrow> face \<Rightarrow> renderer \<Rightarrow> renderer" where
  "CullingOn a f r =
     (if face_culling a then r\<lparr>culled := List.insert (aid a, f) (culled r)\<rparr> else r)"

text \<open>\<^verbatim>\<open>vtkMatrix4x4.MultiplyDoublePoint\<close> on \<open>(p0, p1, p2, 0)\<close>, first three entries.\<close>

fun MultiplyDoublePoint :: "vec3 \<Rightarrow> vec3 \<Rightarrow> vec3" where
  "MultiplyDoublePoint (sx, sy, sz) (p0, p1, p2) = (sx * p0, sy * p1, sz * p2)"

text \<open>\<^verbatim>\<open>vtkMatrix4x4.Invert\<close>: a matrix of determinant zero is left as it is.\<close>

fun Invert :: "vec3 \<Rightarrow> vec3" where
  "Invert (sx, sy, sz) = (if sx * sy * sz = 0 then (sx, sy, sz) else (1 / sx, 1 / sy, 1 / sz))"

section \<open>The module\<close>

text \<open>\<^verbatim>\<open>scale_point(camera, point, invert=False)\<close>.\<close>

definition scale_point :: "camera \<Rightarrow> vec3 \<Rightarrow> bool \<Rightarrow> vec3" where
  "scale_point cam point invert =
     (let mtx = (if invert then Invert (model_transform cam) else model_transform cam)
      in MultiplyDoublePoint mtx point)"

text \<open>\<^verbatim>\<open>Renderer.reset_camera\<close>.\<close>

definition reset_camera :: "renderer \<Rightarrow> renderer" where
  "reset_camera r = render (ResetCamera r)"

text \<open>\<^verbatim>\<open>hex(n)\<close> and \<^verbatim>\<open>str.lower\<close> on ASCII strings.\<close>

definition hex_digit :: "nat \<Rightarrow> char" where
  "hex_digit d = ''0123456789abcdef'' ! d"

fun hex_digits :: "nat \<Rightarrow> string" where
  "hex_digits n = (if n < 16 then [hex_digit n] else hex_digits (n div 16) @ [hex_digit (n mod 16)])"

definition hex :: "nat \<Rightarrow> string" where
  "hex n = ''0x'' @ hex_digits n"

definition lower_char :: "char \<Rightarrow> char" where
  "lower_char c =
     (let n = (of_char c :: nat) in if 65 \<le> n \<and> n \<le> 90 then char_of (n + 32) else c)"

definition lower :: "string \<Rightarrow> string" where
  "lower s = map lower_char s"

text \<open>
  The result of an operation that changes the renderer: it returns a value, or raises with
  the renderer as the exception leaves it, or the count of nested calls allowed to it is
  used up.
\<close>

datatype 'a outcome = Returned 'a renderer | Raised error renderer | OutOfFuel

definition seq :: "'a outcome \<Rightarrow> ('a \<Rightarrow> renderer \<Rightarrow> 'b outcome) \<Rightarrow> 'b outcome" where
  "seq m f = (case m of Returned v r \<Rightarrow> f v r | Raised e r \<Rightarrow> Raised e r | OutOfFuel \<Rightarrow> OutOfFuel)"

text \<open>
  The loop of \<^verbatim>\<open>remove_actor\<close> over a collection:
  \<^verbatim>\<open>for a in actor: rv = self.remove_actor(a, ...); if rv or success: success = True\<close>.
\<close>

fun remove_each ::
  "(target \<Rightarrow> renderer \<Rightarrow> bool outcome) \<Rightarrow> target list \<Rightarrow> bool \<Rightarrow> renderer \<Rightarrow> bool outcome" where
  "remove_each rm [] success r = Returned success r"
| "remove_each rm (t # ts) success r =
     (case rm t r of
        Returned rv r' \<Rightarrow> remove_each rm ts (rv \<or> success) r'
      | Raised e r' \<Rightarrow> Raised e r'
      | OutOfFuel \<Rightarrow> OutOfFuel)"

text \<open>
  \<^verbatim>\<open>remove_actor\<close> from the call of \<^verbatim>\<open>_remove_mapper_from_plotter\<close> to
  \<^verbatim>\<open>self._actors.pop(name, None)\<close>. Without a name, the last key whose value is the actor
  is the one popped.
\<close>

definition find_name :: "(string \<times> actor) list \<Rightarrow> actor \<Rightarrow> string option" where
  "find_name d a = fold (\<lambda>(k, v) nm. if aid v = aid a then Some k else nm) d None"

definition detach :: "actor \<Rightarrow> string option \<Rightarrow> renderer \<Rightarrow> renderer" where
  "detach a name r =
     (let r1 = r\<lparr>parent := remove_mapper_from_plotter (parent r) a False\<rparr>;
          r2 = RemoveActor a r1
      in case (case name of None \<Rightarrow> find_name (actors r2) a | Some nm \<Rightarrow> Some nm) of
           None \<Rightarrow> r2
         | Some nm \<Rightarrow> r2\<lparr>actors := AList.delete nm (actors r2)\<rparr>)"

text \<open>The end of \<^verbatim>\<open>remove_actor\<close>: a camera reset or a redraw.\<close>

definition camera_after_remove :: "reset_flag \<Rightarrow> renderer \<Rightarrow> renderer" where
  "camera_after_remove reset r =
     (if reset = RcTrue then reset_camera r
      else if \<not> camera_set r \<and> reset = RcNone then reset_camera r
      else render r)"

text \<open>The second half of \<^verbatim>\<open>update_bounds_axes\<close>: the cube-axes decoration.\<close>

definition update_cube_axes :: "renderer \<Rightarrow> renderer" where
  "update_cube_axes r =
     (case cube_axes_actor r of
        None \<Rightarrow> r
      | Some (a, b, u) \<Rightarrow>
          (case scale r of (sx, sy, sz) \<Rightarrow>
             r\<lparr>cube_axes_actor :=
                 Some (a, bounds r,
                       \<not> allclose [Fin sx, Fin sy, Fin sz] [Fin 1, Fin 1, Fin 1])\<rparr>))"

text \<open>
  \<^verbatim>\<open>add_actor\<close> between the call of \<^verbatim>\<open>remove_actor\<close> and the call of
  \<^verbatim>\<open>update_bounds_axes\<close>: a mapper is wrapped in a new actor, the actor is attached and
  registered, and the camera is reset or a redraw is requested.
\<close>

definition wrap_input :: "uinput \<Rightarrow> renderer \<Rightarrow> actor \<times> renderer" where
  "wrap_input u r =
     (case u of
        UMapper m \<Rightarrow>
          (\<lparr>aid = next_id r, is_cube_axes = False, GetBounds = mapper_bounds m,
            GetMapper = Mapper (MapperId (mid m)), face_culling = True\<rparr>,
           r\<lparr>next_id := Suc (next_id r)\<rparr>)
      | UActor a \<Rightarrow> (a, r))"

definition register :: "actor \<Rightarrow> string option \<Rightarrow> reset_flag \<Rightarrow> bool \<Rightarrow> renderer \<Rightarrow> renderer" where
  "register a name reset rv r =
     (let r1 = AddActor a r;
          nm = (case name of None \<Rightarrow> hex (aid a) | Some n \<Rightarrow> n);
          r2 = r1\<lparr>actors := AList.update nm a (actors r1)\<rparr>
      in if reset = RcTrue then reset_camera r2
         else if \<not> camera_set r2 \<and> reset = RcNone \<and> \<not> rv then reset_camera r2
         else render r2)"

text \<open>
  The end of \<^verbatim>\<open>add_actor\<close>, after \<^verbatim>\<open>update_bounds_axes\<close>: the culling option, the
  pickable flag and the clipping range.
\<close>

definition cull_and_finish :: "actor \<Rightarrow> culling \<Rightarrow> bool \<Rightarrow> renderer \<Rightarrow> actor outcome" where
  "cull_and_finish a cull pick r =
     (let c = (case cull of CullStr s \<Rightarrow> CullStr (lower s) | CullBool b \<Rightarrow> CullBool b);
          finish = (\<lambda>r'. Returned a (ResetCameraClippingRange (SetPickable a pick r')))
      in if c = CullBool False \<or> c = CullStr [] then finish r
         else if c \<in> set [CullBool True, CullStr ''back'', CullStr ''backface'', CullStr ''b'']
              then finish (CullingOn a Backface r)
         else if c \<in> set [CullStr ''front'', CullStr ''frontface'', CullStr ''f'']
              then finish (CullingOn a Frontface r)
         else Raised RuntimeError r)"

text \<open>\<^verbatim>\<open>'BoundingBox({})'.format(hex(id(self._box_object)))\<close>.\<close>

definition box_name :: "nat \<Rightarrow> string" where
  "box_name i = ''BoundingBox('' @ hex i @ '')''"

text \<open>The bounds of the outline geometry built by \<^verbatim>\<open>add_bounding_box\<close>.\<close>

fun box_of :: "ext list \<Rightarrow> box option" where
  "box_of [Fin x0, Fin x1, Fin y0, Fin y1, Fin z0, Fin z1] = Some (x0, x1, y0, y1, z0, z1)"
| "box_of b = None"

text \<open>
  \<^verbatim>\<open>remove_actor\<close>, \<^verbatim>\<open>update_bounds_axes\<close>, \<^verbatim>\<open>remove_bounding_box\<close>,
  \<^verbatim>\<open>add_bounding_box\<close> and \<^verbatim>\<open>add_actor\<close> call one another. The first argument bounds
  the depth of the nested calls: each call passes one less to the calls it makes, and a
  call with none left is \<open>OutOfFuel\<close>. Colours, line widths and the other styles of the
  decorations are left out.
\<close>

function (sequential) remove_actor :: "nat \<Rightarrow> target \<Rightarrow> reset_flag \<Rightarrow> renderer \<Rightarrow> bool outcome"
and update_bounds_axes :: "nat \<Rightarrow> renderer \<Rightarrow> unit outcome"
and remove_bounding_box :: "nat \<Rightarrow> renderer \<Rightarrow> unit outcome"
and add_bounding_box :: "nat \<Rightarrow> reset_flag \<Rightarrow> culling \<Rightarrow> renderer \<Rightarrow> actor outcome"
and add_actor ::
  "nat \<Rightarrow> uinput \<Rightarrow> reset_flag \<Rightarrow> string option \<Rightarrow> culling \<Rightarrow> bool \<Rightarrow> renderer \<Rightarrow> actor outcome"
where
  "remove_actor 0 t reset r = OutOfFuel"
| "remove_actor (Suc n) (Name nm) reset r =
     (let names = filter (\<lambda>k. prefix (nm @ ''-'') k) (map fst (actors r)) in
      seq (if length names > 0 then remove_actor n (Coll (map Name names)) reset r
           else Returned False r)
        (\<lambda>_ r1. case map_of (actors r1) nm of
                   None \<Rightarrow> Returned False r1
                 | Some a \<Rightarrow>
                     seq (update_bounds_axes n (detach a (Some nm) r1))
                       (\<lambda>_ r2. Returned True (camera_after_remove reset r2))))"
| "remove_actor (Suc n) (Coll ts) reset r =
     remove_each (\<lambda>t r'. remove_actor n t reset r') ts False r"
| "remove_actor (Suc n) NoneT reset r = Returned False r"
| "remove_actor (Suc n) (Obj a) reset r =
     seq (update_bounds_axes n (detach a None r))
       (\<lambda>_ r2. Returned True (camera_after_remove reset r2))"
| "update_bounds_axes 0 r = OutOfFuel"
| "update_bounds_axes (Suc n) r =
     seq (case (box_object r, bounding_box_actor r) of
            (Some bb, Some a) \<Rightarrow>
              if \<not> allclose bb (bounds r)
              then seq (remove_bounding_box n r)
                     (\<lambda>_ r1. seq (add_bounding_box n RcNone (CullStr ''front'') r1)
                                (\<lambda>_ r2. Returned () r2))
              else Returned () r
          | _ \<Rightarrow> Returned () r)
       (\<lambda>_ r3. Returned () (update_cube_axes r3))"
| "remove_bounding_box 0 r = OutOfFuel"
| "remove_bounding_box (Suc n) r =
     (case box_object r of
        None \<Rightarrow> Returned () r
      | Some bb \<Rightarrow>
          seq (remove_actor n (case bounding_box_actor r of None \<Rightarrow> NoneT | Some a \<Rightarrow> Obj a)
                 RcFalse (r\<lparr>bounding_box_actor := None, box_object := None\<rparr>))
            (\<lambda>_ r1. Returned () r1))"
| "add_bounding_box 0 reset cull r = OutOfFuel"
| "add_bounding_box (Suc n) reset cull r =
     seq (remove_bounding_box n r)
       (\<lambda>_ r1.
          (let bb = bounds r1;
               name = box_name (next_id r1);
               mapper = \<lparr>mid = Suc (next_id r1), mapper_bounds = box_of bb\<rparr>;
               r2 = r1\<lparr>box_object := Some bb, next_id := Suc (Suc (next_id r1))\<rparr>
           in seq (add_actor n (UMapper mapper) reset (Some name) cull False r2)
                (\<lambda>a r3. Returned a (r3\<lparr>bounding_box_actor := Some a\<rparr>))))"
| "add_actor 0 u reset name cull pick r = OutOfFuel"
| "add_actor (Suc n) u reset name cull pick r =
     seq (remove_actor n (case name of None \<Rightarrow> NoneT | Some nm \<Rightarrow> Name nm) RcFalse r)
       (\<lambda>rv r1.
          (case wrap_input u r1 of
             (a, r2) \<Rightarrow>
               seq (update_bounds_axes n (register a name reset rv r2))
                 (\<lambda>_ r3. cull_and_finish a cull pick r3)))"
  by pat_completeness auto

termination
  by (relation "measure (case_sum (case_sum fst fst) (case_sum fst (case_sum fst fst)))") auto

text \<open>\<^verbatim>\<open>set_scale(xscale=None, yscale=None, zscale=None, reset_camera=True)\<close>.\<close>

definition set_scale ::
  "nat \<Rightarrow> real option \<Rightarrow> real option \<Rightarrow> real option \<Rightarrow> bool \<Rightarrow> renderer \<Rightarrow> unit outcome" where
  "set_scale n xscale yscale zscale reset r =
     (case scale r of (sx, sy, sz) \<Rightarrow>
        (let x = (case xscale of None \<Rightarrow> sx | Some v \<Rightarrow> v);
             y = (case yscale of None \<Rightarrow> sy | Some v \<Rightarrow> v);
             z = (case zscale of None \<Rightarrow> sz | Some v \<Rightarrow> v);
             r1 = r\<lparr>scale := (x, y, z)\<rparr>;
             r2 = render (r1\<lparr>camera := (camera r1)\<lparr>model_transform := (x, y, z)\<rparr>\<rparr>)
         in if reset
            then seq (update_bounds_axes n r2) (\<lambda>_ r3. Returned () (reset_camera r3))
            else Returned () r2))"

text \<open>
  The setter of \<^verbatim>\<open>camera_position\<close> on \<^verbatim>\<open>None\<close> and on an explicit
  \<^verbatim>\<open>[position, focal_point, view_up]\<close> triple.
\<close>

definition set_camera_position :: "(vec3 \<times> vec3 \<times> vec3) option \<Rightarrow> renderer \<Rightarrow> renderer" where
  "set_camera_position camera_location r =
     (case camera_location of
        None \<Rightarrow> r
      | Some (pos, focal, up) \<Rightarrow>
          (let r1 = r\<lparr>camera := (camera r)\<lparr>position := scale_point (camera r) pos False\<rparr>\<rparr>;
               r2 = r1\<lparr>camera := (camera r1)\<lparr>focal_point := scale_point (camera r1) focal False\<rparr>\<rparr>;
               r3 = r2\<lparr>camera := (camera r2)\<lparr>view_up := up\<rparr>\<rparr>
           in (ResetCameraClippingRange r3)\<lparr>camera_set := True\<rparr>))"

text \<open>
  \<^verbatim>\<open>add_axes_at_origin\<close>: the marker actor built by \<^verbatim>\<open>create_axes_marker\<close> (a helper of
  another module, taken as an argument here) is attached and registered under the name
  of its identity; neither the decorations nor the camera are touched.
\<close>

definition add_axes_at_origin :: "actor \<Rightarrow> renderer \<Rightarrow> renderer" where
  "add_axes_at_origin marker_actor r =
     (let r1 = AddActor marker_actor r
      in r1\<lparr>actors := AList.update (hex (aid marker_actor)) marker_actor (actors r1)\<rparr>)"

text \<open>
  \<^verbatim>\<open>Renderer.__init__(parent, border)\<close>: an empty registry, no decoration, unit scale, the
  camera of the graphics subsystem in its initial place; the border is a prop of the
  graphics subsystem that is not registered.
\<close>

definition init :: "plotter \<Rightarrow> bool \<Rightarrow> renderer" where
  "init p border =
     \<lparr>actors = [], parent = p, camera_set = False, bounding_box_actor = None,
      box_object = None, cube_axes_actor = None, scale = (1, 1, 1),
      camera = \<lparr>position = (0, 0, 1), focal_point = (0, 0, 0), view_up = (0, 1, 0),
                model_transform = (1, 1, 1)\<rparr>,
      props = (if border then [0] else []), pickable = [], culled = [], fits = 0,
      clip_resets = 0, next_id = 1\<rparr>"

definition new_plotter :: plotter where
  "new_plotter = \<lparr>scalar_bars = [], scalar_bar_slots = [], renders = 0, removal_requests = []\<rparr>"

section \<open>Notions of the specification\<close>

text \<open>
  The boxes the specification takes the union of: the bounding boxes of the registered
  actors that are not cube-axes actors and not the current bounding-box decoration, and
  that report bounds.
\<close>

definition scene_boxes :: "renderer \<Rightarrow> box list" where
  "scene_boxes r =
     List.map_filter
       (\<lambda>a. if is_cube_axes a \<or> is_bounding_box_actor r a then None else GetBounds a)
       (map snd (actors r))"

definition edge :: "nat \<Rightarrow> box \<Rightarrow> real" where
  "edge i b = box_list b ! i"

text \<open>
  The exact union of boxes, axis by axis: the least lower edge and the greatest upper
  edge; the unit box \<open>(-1, 1, -1, 1, -1, 1)\<close> when there is no box.
\<close>

definition exact_union :: "box list \<Rightarrow> ext list" where
  "exact_union bs =
     (if bs = [] then [Fin (- 1), Fin 1, Fin (- 1), Fin 1, Fin (- 1), Fin 1]
      else [Fin (Min (set (map (edge 0) bs))), Fin (Max (set (map (edge 1) bs))),
            Fin (Min (set (map (edge 2) bs))), Fin (Max (set (map (edge 3) bs))),
            Fin (Min (set (map (edge 4) bs))), Fin (Max (set (map (edge 5) bs)))])"

text \<open>
  The culling options \<^verbatim>\<open>add_actor\<close> accepts: a boolean, or a string that is empty or,
  in lower case, one of the six names of the back and front faces.
\<close>

definition recognised :: "culling \<Rightarrow> bool" where
  "recognised cull =
     (case cull of
        CullBool b \<Rightarrow> True
      | CullStr s \<Rightarrow> lower s \<in> set ['''', ''back'', ''backface'', ''b'', ''front'', ''frontface'', ''f''])"

text \<open>
  What holds of the renderer an operation leaves behind, whether it returns or raises.
\<close>

definition post :: "(renderer \<Rightarrow> bool) \<Rightarrow> 'a outcome \<Rightarrow> bool" where
  "post Q m = (case m of Returned v r \<Rightarrow> Q r | Raised e r \<Rightarrow> Q r | OutOfFuel \<Rightarrow> True)"

text \<open>The same with one condition for a return and one for a raise.\<close>

definition post2 :: "(renderer \<Rightarrow> bool) \<Rightarrow> (renderer \<Rightarrow> bool) \<Rightarrow> 'a outcome \<Rightarrow> bool" where
  "post2 Q X m = (case m of Returned v r \<Rightarrow> Q r | Raised e r \<Rightarrow> X r | OutOfFuel \<Rightarrow> True)"

section \<open>Sequences of calls\<close>

text \<open>
  A call of \<^verbatim>\<open>add_actor(uinput, reset_camera, name, culling, pickable)\<close> or of
  \<^verbatim>\<open>remove_actor(actor, reset_camera)\<close>, and a sequence of such calls on one renderer. A
  call that raises leaves the renderer as it was at the raise, and the next call works
  on that renderer.
\<close>

datatype call =
    Add uinput reset_flag "string option" culling bool
  | Remove target reset_flag

fun reset_of :: "call \<Rightarrow> reset_flag" where
  "reset_of (Add u reset name cull pick) = reset"
| "reset_of (Remove t reset) = reset"

fun is_add :: "call \<Rightarrow> bool" where
  "is_add (Add u reset name cull pick) = True"
| "is_add (Remove t reset) = False"

definition left_by :: "'a outcome \<Rightarrow> renderer option" where
  "left_by m = (case m of Returned v r \<Rightarrow> Some r | Raised e r \<Rightarrow> Some r | OutOfFuel \<Rightarrow> None)"

fun run_call :: "nat \<Rightarrow> call \<Rightarrow> renderer \<Rightarrow> renderer option" where
  "run_call n (Add u reset name cull pick) r = left_by (add_actor n u reset name cull pick r)"
| "run_call n (Remove t reset) r = left_by (remove_actor n t reset r)"

fun run :: "nat \<Rightarrow> call list \<Rightarrow> renderer \<Rightarrow> renderer option" where
  "run n [] r = Some r"
| "run n (c # cs) r = (case run_call n c r of None \<Rightarrow> None | Some r' \<Rightarrow> run n cs r')"

text \<open>
  What the specification asks of a call once the camera position is set: the flag stays
  set, no refit is made, the camera stays where it is; and no redraw request is lost.
\<close>

definition framing_kept :: "renderer \<Rightarrow> renderer \<Rightarrow> bool" where
  "framing_kept r r' \<longleftrightarrow>
     (camera_set r \<longrightarrow> camera_set r' \<and> fits r' = fits r \<and> camera r' = camera r) \<and>
     renders (parent r) \<le> renders (parent r')"

section \<open>Notions of the registry\<close>

text \<open>
  The keys of \<^verbatim>\<open>_actors\<close>; the keys that \<^verbatim>\<open>remove_actor(name)\<close> removes with \<open>name\<close>, those
  that start with \<open>name\<close> followed by \<open>-\<close>; and their number.
\<close>

definition registry_keys :: "renderer \<Rightarrow> string list" where
  "registry_keys r = map fst (actors r)"

definition extends :: "string \<Rightarrow> string \<Rightarrow> bool" where
  "extends nm k \<longleftrightarrow> prefix (nm @ ''-'') k"

definition extensions :: "string \<Rightarrow> renderer \<Rightarrow> nat" where
  "extensions nm r = length (remdups (filter (extends nm) (registry_keys r)))"

text \<open>The number of keys with a \<open>-\<close> in them.\<close>

definition dashed :: "renderer \<Rightarrow> nat" where
  "dashed r = length (remdups (filter (\<lambda>k. CHR ''-'' \<in> set k) (registry_keys r)))"

text \<open>
  No bounding-box decoration is active: \<^verbatim>\<open>update_bounds_axes\<close> skips its first branch.
  The decoration is current: it is not active, or its bounds are close to the bounds of
  the scene, so that \<^verbatim>\<open>update_bounds_axes\<close> does not rebuild it.
\<close>

definition no_box :: "renderer \<Rightarrow> bool" where
  "no_box r \<longleftrightarrow> box_object r = None \<or> bounding_box_actor r = None"



text \<open>
  The two halves of \<^verbatim>\<open>remove_actor(name)\<close>: the removal of the keys that extend the name,
  and the lookup and removal of the name itself.
\<close>

definition remove_extensions :: "nat \<Rightarrow> string \<Rightarrow> reset_flag \<Rightarrow> renderer \<Rightarrow> bool outcome" where
  "remove_extensions n nm reset r =
     (if filter (extends nm) (registry_keys r) = [] then Returned False r
      else remove_actor n (Coll (map Name (filter (extends nm) (registry_keys r)))) reset r)"

definition remove_entry :: "nat \<Rightarrow> string \<Rightarrow> reset_flag \<Rightarrow> renderer \<Rightarrow> bool outcome" where
  "remove_entry n nm reset r =
     (case map_of (actors r) nm of
        None \<Rightarrow> Returned False r
      | Some a \<Rightarrow>
          seq (update_bounds_axes n (detach a (Some nm) r))
            (\<lambda>_ r2. Returned True (camera_after_remove reset r2)))"

text \<open>
  A depth of nested calls that is enough for \<^verbatim>\<open>remove_actor\<close>: \<open>c\<close> gives the number
  of keys that extend a name and \<open>u\<close> is a depth that is enough for
  \<^verbatim>\<open>update_bounds_axes\<close>. The depths for a renderer in any state follow.
\<close>

fun need_of :: "(string \<Rightarrow> nat) \<Rightarrow> nat \<Rightarrow> target \<Rightarrow> nat" where
  "need_of c u NoneT = 1"
| "need_of c u (Obj a) = Suc u"
| "need_of c u (Name nm) = 2 * c nm + Suc u"
| "need_of c u (Coll ts) = Suc (fold max (map (need_of c u) ts) 0)"

definition update_depth :: "renderer \<Rightarrow> nat" where
  "update_depth r = 2 * dashed r + 5"

definition remove_depth :: "renderer \<Rightarrow> target \<Rightarrow> nat" where
  "remove_depth r t = need_of (\<lambda>nm. extensions nm r) (update_depth r) t"

definition add_depth :: "renderer \<Rightarrow> string option \<Rightarrow> nat" where
  "add_depth r name =
     Suc (max (remove_depth r (case name of None \<Rightarrow> NoneT | Some nm \<Rightarrow> Name nm))
              (update_depth r + 2))"

text \<open>
  A depth that is enough for a whole sequence of calls: each \<^verbatim>\<open>add_actor\<close> may add one
  key with a \<open>-\<close> in it.
\<close>

fun target_of :: "call \<Rightarrow> target" where
  "target_of (Add u reset name cull pick) = (case name of None \<Rightarrow> NoneT | Some nm \<Rightarrow> Name nm)"
| "target_of (Remove t reset) = t"

definition run_depth :: "renderer \<Rightarrow> call list \<Rightarrow> nat" where
  "run_depth r cs =
     (let d = dashed r + length cs
      in Suc (fold max (map (\<lambda>c. need_of (\<lambda>nm. d) (2 * d + 5) (target_of c)) cs)
                (2 * d + 7)))"

text \<open>
  Two relations between the renderer before and after an operation: the keys after are
  keys before or names of bounding boxes; the bounding-box fields are the same.
\<close>

definition keys_le :: "renderer \<Rightarrow> renderer \<Rightarrow> bool" where
  "keys_le r r' \<longleftrightarrow> set (registry_keys r') \<subseteq> set (registry_keys r) \<union> range box_name"

definition same_box :: "renderer \<Rightarrow> renderer \<Rightarrow> bool" where
  "same_box r r' \<longleftrightarrow>
     box_object r' = box_object r \<and> bounding_box_actor r' = bounding_box_actor r"


section \<open>Sample inputs\<close>

text \<open>
  The actors of the scenario of section 8 of the specification: \<open>A\<close> with bounds
  \<open>[0, 1, 0, 1, 0, 1]\<close> and \<open>B\<close> with bounds \<open>[1, 2, 1, 2, 1, 2]\<close>; a third actor \<open>C\<close>;
  and the renderer of a new plotter.
\<close>

definition actor_A :: actor where
  "actor_A = \<lparr>aid = 100, is_cube_axes = False, GetBounds = Some (0, 1, 0, 1, 0, 1),
               GetMapper = Mapper (MapperId 200), face_culling = True\<rparr>"

definition actor_B :: actor where
  "actor_B = \<lparr>aid = 101, is_cube_axes = False, GetBounds = Some (1, 2, 1, 2, 1, 2),
               GetMapper = Mapper (MapperId 201), face_culling = True\<rparr>"

definition actor_C :: actor where
  "actor_C = \<lparr>aid = 102, is_cube_axes = False, GetBounds = Some (0, 3, 0, 3, 0, 3),
               GetMapper = Mapper (MapperId 202), face_culling = True\<rparr>"

definition fresh :: renderer where
  "fresh = init new_plotter True"

text \<open>A depth of ten nested calls, enough for the scenes below.\<close>

definition depth_10 :: nat where
  "depth_10 = Suc (Suc (Suc (Suc (Suc (Suc (Suc (Suc (Suc (Suc 0)))))))))"

text \<open>An actor that is registered nowhere, and the marker of \<^verbatim>\<open>add_axes_at_origin\<close>.\<close>

definition actor_Z :: actor where
  "actor_Z = \<lparr>aid = 103, is_cube_axes = False, GetBounds = Some (5, 6, 5, 6, 5, 6),
               GetMapper = Mapper (MapperId 203), face_culling = True\<rparr>"

definition marker :: actor where
  "marker = \<lparr>aid = 104, is_cube_axes = False, GetBounds = Some (- 4, 4, - 4, 4, - 4, 4),
              GetMapper = AttributeError, face_culling = False\<rparr>"

text \<open>
  Scenes built by calls on the new renderer: \<open>A\<close> under \<open>a\<close>; \<open>B\<close> under \<open>a-1\<close>;
  \<open>A\<close> under \<open>a\<close> and \<open>B\<close> under \<open>a-1\<close>; \<open>A\<close> under \<open>a\<close> with a bounding box; the
  same after \<^verbatim>\<open>add_axes_at_origin\<close>.
\<close>

definition scene_a :: renderer where
  "scene_a = the (run (Suc (Suc 0)) [Add (UActor actor_A) RcFalse (Some ''a'') (CullBool False) True] fresh)"

definition scene_dash :: renderer where
  "scene_dash =
     the (run (Suc (Suc 0)) [Add (UActor actor_B) RcFalse (Some ''a-1'') (CullBool False) True] fresh)"

definition scene_pair :: renderer where
  "scene_pair =
     the (run (Suc (Suc 0)) [Add (UActor actor_B) RcFalse (Some ''a-1'') (CullBool False) True] scene_a)"

definition scene_box :: renderer where
  "scene_box = the (left_by (add_bounding_box depth_10 RcNone (CullStr ''front'') scene_a))"




section \<open>Properties\<close>

subsection \<open>The aggregate bounds\<close>

lemma fold_actor_boxes:
  "fold (fold_actor r) as acc = fold (\<lambda>b. update_bounds (box_list b))
      (List.map_filter (\<lambda>a. if is_cube_axes a \<or> is_bounding_box_actor r a then None else GetBounds a) as) acc"
  by (induction as arbitrary: acc) (auto simp: fold_actor_def List.map_filter_simps split: option.splits)

lemma update_bounds_initial:
  "update_bounds (box_list b) initial_bounds = map Fin (box_list b)"
  by (cases b) (simp add: update_bounds_def update_axis_def initial_bounds_def)

lemma update_bounds_finite:
  "update_bounds (box_list b) [Fin l0, Fin h0, Fin l1, Fin h1, Fin l2, Fin h2] =
     [Fin (min (edge 0 b) l0), Fin (max (edge 1 b) h0), Fin (min (edge 2 b) l1),
      Fin (max (edge 3 b) h1), Fin (min (edge 4 b) l2), Fin (max (edge 5 b) h2)]"
  by (cases b) (auto simp add: update_bounds_def update_axis_def edge_def min_def max_def)

lemma fold_boxes:
  "bs \<noteq> [] \<Longrightarrow> fold (\<lambda>b. update_bounds (box_list b)) bs initial_bounds =
      [Fin (Min (set (map (edge 0) bs))), Fin (Max (set (map (edge 1) bs))),
       Fin (Min (set (map (edge 2) bs))), Fin (Max (set (map (edge 3) bs))),
       Fin (Min (set (map (edge 4) bs))), Fin (Max (set (map (edge 5) bs)))]"
proof (induction bs rule: rev_induct)
  case Nil
  then show ?case by simp
next
  case (snoc b bs)
  show ?case
  proof (cases "bs = []")
    case True
    then show ?thesis
      using update_bounds_initial [of b] by (cases b) (simp add: edge_def)
  next
    case False
    then show ?thesis
      using snoc.IH by (simp add: update_bounds_finite Min_insert2 min.commute max.commute)
  qed
qed

lemma replace_infinite_initial:
  "replace_infinite initial_bounds = [Fin (- 1), Fin 1, Fin (- 1), Fin 1, Fin (- 1), Fin 1]"
  by (simp add: replace_infinite_def initial_bounds_def)

lemma replace_infinite_finite: "replace_infinite (map Fin xs) = map Fin xs"
  by (simp add: replace_infinite_def)

text \<open>
  Claim C1. In every state of the renderer, and so after every sequence of
  \<^verbatim>\<open>add_actor\<close> and \<^verbatim>\<open>remove_actor\<close> calls, \<^verbatim>\<open>bounds\<close> is the exact per-axis union
  (least lower edge, greatest upper edge) of the bounding boxes of the registered actors
  that are neither cube-axes actors nor the current bounding-box decoration; when no such
  actor reports bounds it is \<open>(-1, 1, -1, 1, -1, 1)\<close>.
\<close>

theorem bounds_exact_union: "bounds r = exact_union (scene_boxes r)"
proof (cases "scene_boxes r = []")
  case True
  then show ?thesis
    by (simp add: bounds_def fold_actor_boxes scene_boxes_def exact_union_def replace_infinite_initial)
next
  case False
  have "fold (fold_actor r) (map snd (actors r)) initial_bounds = exact_union (scene_boxes r)"
    using False fold_boxes [of "scene_boxes r"]
    by (simp add: fold_actor_boxes scene_boxes_def exact_union_def)
  moreover have "replace_infinite (exact_union (scene_boxes r)) = exact_union (scene_boxes r)"
    using False replace_infinite_finite [of "[a, b, c, d, e, f]" for a b c d e f]
    by (simp add: exact_union_def)
  ultimately show ?thesis by (simp add: bounds_def)
qed

subsection \<open>Outcomes and what all operations preserve\<close>

lemma post_simps [simp]:
  "post Q (Returned v r) = Q r" "post Q (Raised e r) = Q r" "post Q OutOfFuel = True"
  by (simp_all add: post_def)

lemma post2_simps [simp]:
  "post2 Q X (Returned v r) = Q r" "post2 Q X (Raised e r) = X r" "post2 Q X OutOfFuel = True"
  by (simp_all add: post2_def)

lemma post2_same: "post2 Q Q m = post Q m"
  by (cases m) simp_all

lemma seq_simps [simp]:
  "seq (Returned v r) f = f v r" "seq (Raised e r) f = Raised e r" "seq OutOfFuel f = OutOfFuel"
  by (simp_all add: seq_def)

lemma post2_seq:
  assumes "post2 Q1 X m" and "\<And>v r1. Q1 r1 \<Longrightarrow> post2 Q X (f v r1)"
  shows "post2 Q X (seq m f)"
  using assms by (cases m) simp_all

lemma post2_trans:
  assumes "post2 (R b) (X b) m" and "R a b"
    and "\<And>a b c. R a b \<Longrightarrow> R b c \<Longrightarrow> R a c" and "\<And>a b c. R a b \<Longrightarrow> X b c \<Longrightarrow> X a c"
  shows "post2 (R a) (X a) m"
  using assms by (cases m) auto

lemma post2_remove_each:
  assumes step: "\<And>t r1. post2 (R r1) (X r1) (rm t r1)"
    and trans: "\<And>a b c. R a b \<Longrightarrow> R b c \<Longrightarrow> R a c"
    and transX: "\<And>a b c. R a b \<Longrightarrow> X b c \<Longrightarrow> X a c"
  shows "R r0 r \<Longrightarrow> post2 (R r0) (X r0) (remove_each rm ts s r)"
proof (induction ts arbitrary: r s)
  case Nil
  then show ?case by simp
next
  case (Cons t ts)
  show ?case
  proof (cases "rm t r")
    case (Returned rv r')
    with step [of r t] have "R r r'" by simp
    with Cons.prems have "R r0 r'" by (rule trans)
    with Cons.IH Returned show ?thesis by simp
  next
    case (Raised e r')
    with step [of r t] have "X r r'" by simp
    with Cons.prems have "X r0 r'" by (rule transX)
    with Raised show ?thesis by simp
  next
    case OutOfFuel
    then show ?thesis by simp
  qed
qed

text \<open>
  A relation \<open>R\<close> between the renderer before and after, and a relation \<open>X\<close> between the
  renderer before and at a raise, hold of the five operations at every depth when every
  step of their bodies keeps \<open>R\<close>. \<open>F\<close> restricts the \<^verbatim>\<open>reset_camera\<close> flags, \<open>N\<close> the
  names and \<open>C\<close> the culling options of the calls the property is about; the flags,
  names and options the operations pass to one another must be among them.
\<close>

lemma group_has:
  fixes R X :: "renderer \<Rightarrow> renderer \<Rightarrow> bool" and F :: "reset_flag \<Rightarrow> bool"
    and N :: "string option \<Rightarrow> bool" and C :: "culling \<Rightarrow> bool"
  assumes refl: "\<And>r. R r r" and trans: "\<And>a b c. R a b \<Longrightarrow> R b c \<Longrightarrow> R a c"
    and transX: "\<And>a b c. R a b \<Longrightarrow> X b c \<Longrightarrow> X a c"
    and F_false: "F RcFalse" and F_none: "F RcNone"
    and N_box: "\<And>m. N (Some (box_name m))"
    and C_front: "C (CullStr ''front'')"
    and detach: "\<And>a nm r. R r (detach a nm r)"
    and cam: "\<And>f r. F f \<Longrightarrow> R r (camera_after_remove f r)"
    and cube: "\<And>r. R r (update_cube_axes r)"
    and unbox: "\<And>r. R r (r\<lparr>bounding_box_actor := None, box_object := None\<rparr>)"
    and setbox: "\<And>r bb. R r (r\<lparr>box_object := Some bb, next_id := Suc (Suc (next_id r))\<rparr>)"
    and setbba: "\<And>r a. R r (r\<lparr>bounding_box_actor := Some a\<rparr>)"
    and wrap: "\<And>u r. R r (snd (wrap_input u r))"
    and reg: "\<And>a nm f rv r. F f \<Longrightarrow> N nm \<Longrightarrow> R r (register a nm f rv r)"
    and fin: "\<And>a c p r. C c \<Longrightarrow> post2 (R r) (X r) (cull_and_finish a c p r)"
  shows "(\<forall>t f r. F f \<longrightarrow> post2 (R r) (X r) (remove_actor n t f r)) \<and>
         (\<forall>r. post2 (R r) (X r) (update_bounds_axes n r)) \<and>
         (\<forall>r. post2 (R r) (X r) (remove_bounding_box n r)) \<and>
         (\<forall>f c r. F f \<longrightarrow> C c \<longrightarrow> post2 (R r) (X r) (add_bounding_box n f c r)) \<and>
         (\<forall>u f nm c p r. F f \<longrightarrow> N nm \<longrightarrow> C c \<longrightarrow>
            post2 (R r) (X r) (add_actor n u f nm c p r))"
proof (induction n)
  case 0
  show ?case by simp
next
  case (Suc n)
  then have rm: "\<And>t f r. F f \<Longrightarrow> post2 (R r) (X r) (remove_actor n t f r)"
    and upd: "\<And>r. post2 (R r) (X r) (update_bounds_axes n r)"
    and rbb: "\<And>r. post2 (R r) (X r) (remove_bounding_box n r)"
    and abb: "\<And>f c r. F f \<Longrightarrow> C c \<Longrightarrow> post2 (R r) (X r) (add_bounding_box n f c r)"
    and add: "\<And>u f nm c p r. F f \<Longrightarrow> N nm \<Longrightarrow> C c \<Longrightarrow>
                post2 (R r) (X r) (add_actor n u f nm c p r)"
    by blast+
  note pt = post2_trans [where R = R and X = X, OF _ _ trans transX]
  have base: "post2 (R r) (X r) (seq (update_bounds_axes n (detach a nm r1))
                 (\<lambda>_ r2. Returned True (camera_after_remove f r2)))"
    if "F f" "R r r1" for r r1 a nm f
  proof (rule post2_seq [where ?Q1.0 = "R r"])
    show "post2 (R r) (X r) (update_bounds_axes n (detach a nm r1))"
      by (rule pt [OF upd trans [OF that(2) detach]])
  next
    fix v r2 assume "R r r2"
    then show "post2 (R r) (X r) (Returned True (camera_after_remove f r2))"
      using cam [OF that(1)] by (auto intro: trans)
  qed
  have 1: "post2 (R r) (X r) (remove_actor (Suc n) t f r)" if "F f" for t f r
  proof (cases t)
    case (Name nm)
    let ?names = "filter (\<lambda>k. prefix (nm @ ''-'') k) (map fst (actors r))"
    have "post2 (R r) (X r)
            (if length ?names > 0 then remove_actor n (Coll (map Name ?names)) f r
             else Returned False r)"
      using rm [OF that] refl by simp
    then show ?thesis
      unfolding Name remove_actor.simps Let_def
    proof (rule post2_seq)
      fix v r1 assume r1: "R r r1"
      show "post2 (R r) (X r) (case map_of (actors r1) nm of None \<Rightarrow> Returned False r1
          | Some a \<Rightarrow> seq (update_bounds_axes n (detach a (Some nm) r1))
                        (\<lambda>_ r2. Returned True (camera_after_remove f r2)))"
        using r1 base [OF that r1] by (simp split: option.split)
    qed
  next
    case (Obj a)
    then show ?thesis using base [OF that refl] by simp
  next
    case (Coll ts)
    then show ?thesis
      using post2_remove_each [of R X "\<lambda>t r'. remove_actor n t f r'" r r ts False]
        rm [OF that] trans transX refl by simp
  next
    case NoneT
    then show ?thesis using refl by simp
  qed
  have 2: "post2 (R r) (X r) (update_bounds_axes (Suc n) r)" for r
    unfolding update_bounds_axes.simps
  proof (rule post2_seq [where ?Q1.0 = "R r"])
    show "post2 (R r) (X r) (case (box_object r, bounding_box_actor r) of
        (Some bb, Some a) \<Rightarrow>
          if \<not> allclose bb (bounds r)
          then seq (remove_bounding_box n r)
                 (\<lambda>_ r1. seq (add_bounding_box n RcNone (CullStr ''front'') r1)
                            (\<lambda>_ r2. Returned () r2))
          else Returned () r
      | _ \<Rightarrow> Returned () r)"
    proof -
      have "post2 (R r) (X r) (seq (remove_bounding_box n r)
                 (\<lambda>_ r1. seq (add_bounding_box n RcNone (CullStr ''front'') r1)
                            (\<lambda>_ r2. Returned () r2)))"
      proof (rule post2_seq [where ?Q1.0 = "R r"])
        show "post2 (R r) (X r) (remove_bounding_box n r)" by (rule rbb)
      next
        fix v r1 assume r1: "R r r1"
        show "post2 (R r) (X r) (seq (add_bounding_box n RcNone (CullStr ''front'') r1)
                            (\<lambda>_ r2. Returned () r2))"
        proof (rule post2_seq [where ?Q1.0 = "R r"])
          show "post2 (R r) (X r) (add_bounding_box n RcNone (CullStr ''front'') r1)"
            by (rule pt [OF abb [OF F_none C_front] r1])
        qed simp
      qed
      then show ?thesis using refl by (simp split: option.split)
    qed
  next
    fix v r3 assume "R r r3"
    then show "post2 (R r) (X r) (Returned () (update_cube_axes r3))"
      using cube by (auto intro: trans)
  qed
  have 3: "post2 (R r) (X r) (remove_bounding_box (Suc n) r)" for r
  proof (cases "box_object r")
    case None
    then show ?thesis using refl by simp
  next
    case (Some bb)
    have "post2 (R r) (X r)
            (remove_actor n (case bounding_box_actor r of None \<Rightarrow> NoneT | Some a \<Rightarrow> Obj a)
               RcFalse (r\<lparr>bounding_box_actor := None, box_object := None\<rparr>))"
      by (rule pt [OF rm [OF F_false] unbox])
    then show ?thesis using Some
      by (auto intro!: post2_seq [where ?Q1.0 = "R r"])
  qed
  have 4: "post2 (R r) (X r) (add_bounding_box (Suc n) f c r)" if "F f" "C c" for f c r
    unfolding add_bounding_box.simps Let_def
  proof (rule post2_seq [where ?Q1.0 = "R r"])
    show "post2 (R r) (X r) (remove_bounding_box n r)" by (rule rbb)
  next
    fix v r1 assume r1: "R r r1"
    let ?r2 = "r1\<lparr>box_object := Some (bounds r1), next_id := Suc (Suc (next_id r1))\<rparr>"
    have r2: "R r ?r2" using r1 setbox by (rule trans)
    show "post2 (R r) (X r)
            (seq (add_actor n
                   (UMapper \<lparr>mid = Suc (next_id r1), mapper_bounds = box_of (bounds r1)\<rparr>)
                   f (Some (box_name (next_id r1))) c False ?r2)
               (\<lambda>a r3. Returned a (r3\<lparr>bounding_box_actor := Some a\<rparr>)))"
    proof (rule post2_seq [where ?Q1.0 = "R r"])
      show "post2 (R r) (X r)
              (add_actor n
                 (UMapper \<lparr>mid = Suc (next_id r1), mapper_bounds = box_of (bounds r1)\<rparr>)
                 f (Some (box_name (next_id r1))) c False ?r2)"
        by (rule pt [OF add [OF that(1) N_box that(2)] r2])
    next
      fix a r3 assume "R r r3"
      then show "post2 (R r) (X r) (Returned a (r3\<lparr>bounding_box_actor := Some a\<rparr>))"
        using setbba by (auto intro: trans)
    qed
  qed
  have 5: "post2 (R r) (X r) (add_actor (Suc n) u f nm c p r)"
    if "F f" "N nm" "C c" for u f nm c p r
    unfolding add_actor.simps
  proof (rule post2_seq [where ?Q1.0 = "R r"])
    show "post2 (R r) (X r)
            (remove_actor n (case nm of None \<Rightarrow> NoneT | Some nm \<Rightarrow> Name nm) RcFalse r)"
      by (rule rm [OF F_false])
  next
    fix rv r1 assume r1: "R r r1"
    obtain a r2 where w: "wrap_input u r1 = (a, r2)" by (cases "wrap_input u r1")
    have r2: "R r r2" using wrap [of r1 u] w r1 by (auto intro: trans)
    have r3: "R r (register a nm f rv r2)" using r2 reg [OF that(1,2)] by (rule trans)
    have "post2 (R r) (X r) (seq (update_bounds_axes n (register a nm f rv r2))
                 (\<lambda>_ r3. cull_and_finish a c p r3))"
    proof (rule post2_seq [where ?Q1.0 = "R r"])
      show "post2 (R r) (X r) (update_bounds_axes n (register a nm f rv r2))"
        by (rule pt [OF upd r3])
    next
      fix v r4 assume "R r r4"
      then show "post2 (R r) (X r) (cull_and_finish a c p r4)"
        by (rule pt [OF fin [OF that(3)] _])
    qed
    then show "post2 (R r) (X r) (case wrap_input u r1 of (a, r2) \<Rightarrow>
               seq (update_bounds_axes n (register a nm f rv r2))
                 (\<lambda>_ r3. cull_and_finish a c p r3))"
      using w by simp
  qed
  from 1 2 3 4 5 show ?case by blast
qed

lemma group_preserves:
  fixes R :: "renderer \<Rightarrow> renderer \<Rightarrow> bool" and F :: "reset_flag \<Rightarrow> bool"
    and N :: "string option \<Rightarrow> bool"
  assumes refl: "\<And>r. R r r" and trans: "\<And>a b c. R a b \<Longrightarrow> R b c \<Longrightarrow> R a c"
    and F_false: "F RcFalse" and F_none: "F RcNone"
    and N_box: "\<And>m. N (Some (box_name m))"
    and detach: "\<And>a nm r. R r (detach a nm r)"
    and cam: "\<And>f r. F f \<Longrightarrow> R r (camera_after_remove f r)"
    and cube: "\<And>r. R r (update_cube_axes r)"
    and unbox: "\<And>r. R r (r\<lparr>bounding_box_actor := None, box_object := None\<rparr>)"
    and setbox: "\<And>r bb. R r (r\<lparr>box_object := Some bb, next_id := Suc (Suc (next_id r))\<rparr>)"
    and setbba: "\<And>r a. R r (r\<lparr>bounding_box_actor := Some a\<rparr>)"
    and wrap: "\<And>u r. R r (snd (wrap_input u r))"
    and reg: "\<And>a nm f rv r. F f \<Longrightarrow> N nm \<Longrightarrow> R r (register a nm f rv r)"
    and fin: "\<And>a c p r. post (R r) (cull_and_finish a c p r)"
  shows "(\<forall>t f r. F f \<longrightarrow> post (R r) (remove_actor n t f r)) \<and>
         (\<forall>r. post (R r) (update_bounds_axes n r)) \<and>
         (\<forall>r. post (R r) (remove_bounding_box n r)) \<and>
         (\<forall>f c r. F f \<longrightarrow> post (R r) (add_bounding_box n f c r)) \<and>
         (\<forall>u f nm c p r. F f \<longrightarrow> N nm \<longrightarrow> post (R r) (add_actor n u f nm c p r))"
  using group_has [where R = R and X = R and F = F and N = N and C = "\<lambda>_. True" and n = n,
      OF refl trans trans F_false F_none N_box TrueI detach cam cube unbox setbox setbba wrap reg]
    fin
  by (simp add: post2_same)

lemma cull_and_finish_recognised:
  "recognised c \<Longrightarrow>
   \<exists>r'. cull_and_finish a c p r = Returned a r' \<and> actors r' = actors r \<and> props r' = props r
     \<and> parent r' = parent r"
  by (cases c)
     (auto simp: recognised_def cull_and_finish_def Let_def ResetCameraClippingRange_def
        SetPickable_def CullingOn_def)

lemma cull_and_finish_unrecognised:
  "\<not> recognised c \<Longrightarrow> cull_and_finish a c p r = Raised RuntimeError r"
  by (cases c) (auto simp: recognised_def cull_and_finish_def Let_def)

lemma never_raises_group:
  "(\<forall>t f r. True \<longrightarrow> post2 (\<lambda>_. True) (\<lambda>_. False) (remove_actor n t f r)) \<and>
   (\<forall>r. post2 (\<lambda>_. True) (\<lambda>_. False) (update_bounds_axes n r)) \<and>
   (\<forall>r. post2 (\<lambda>_. True) (\<lambda>_. False) (remove_bounding_box n r)) \<and>
   (\<forall>f c r. True \<longrightarrow> recognised c \<longrightarrow>
      post2 (\<lambda>_. True) (\<lambda>_. False) (add_bounding_box n f c r)) \<and>
   (\<forall>u f nm c p r. True \<longrightarrow> True \<longrightarrow> recognised c \<longrightarrow>
      post2 (\<lambda>_. True) (\<lambda>_. False) (add_actor n u f nm c p r))"
proof (rule group_has [where R = "\<lambda>_ _. True" and X = "\<lambda>_ _. False" and F = "\<lambda>_. True"
        and N = "\<lambda>_. True" and C = recognised])
  show "recognised (CullStr ''front'')"
    by (simp add: recognised_def lower_def lower_char_def)
  show "post2 (\<lambda>_. True) (\<lambda>_. False) (cull_and_finish a c p r)" if "recognised c" for a c p r
    using cull_and_finish_recognised [OF that, of a p r] by auto
qed simp_all

lemma remove_actor_never_raises: "remove_actor n t f r \<noteq> Raised e r'"
  using never_raises_group [of n] by (auto simp: post2_def split: outcome.splits)

lemma update_bounds_axes_never_raises: "update_bounds_axes n r \<noteq> Raised e r'"
  using never_raises_group [of n] by (auto simp: post2_def split: outcome.splits)

text \<open>Unfolding the steps of the operations, to run them on given inputs.\<close>

lemmas run_defs = init_def new_plotter_def fresh_def set_camera_position_def scale_point_def
  ResetCameraClippingRange_def Let_def left_by_def register_def AddActor_def render_def
  wrap_input_def detach_def remove_mapper_from_plotter_def RemoveActor_def
  camera_after_remove_def reset_camera_def ResetCamera_def update_cube_axes_def
  cull_and_finish_def SetPickable_def CullingOn_def find_name_def
  actor_A_def actor_B_def actor_C_def

subsection \<open>The sentinels of the bounds\<close>

lemma replace_infinite_nth:
  assumes "i < length tb"
  shows "(tb ! i = PInf \<longrightarrow> replace_infinite tb ! i = Fin (- 1)) \<and>
         (tb ! i = NInf \<longrightarrow> replace_infinite tb ! i = Fin 1)"
proof -
  have "list_ex ext_abs_true tb" if "tb ! i = PInf \<or> tb ! i = NInf"
    using that assms by (auto simp: list_ex_iff in_set_conv_nth intro!: bexI [of _ "tb ! i"])
  then show ?thesis using assms by (auto simp: replace_infinite_def)
qed

lemma length_fold_actor: "length (fold_actor r a tb) = length tb"
  by (simp add: fold_actor_def update_bounds_def update_axis_def Let_def split: option.split)

lemma length_fold_actors: "length (fold (fold_actor r) as tb) = length tb"
  by (induction as arbitrary: tb) (simp_all add: length_fold_actor)

text \<open>
  Claim C8, as amended. Where the accumulator of \<^verbatim>\<open>bounds\<close> is still at a sentinel
  after all actor boxes are folded in, the entry \<open>+inf\<close> (a lower edge) becomes \<open>-1\<close> and
  the entry \<open>-inf\<close> (an upper edge) becomes \<open>+1\<close>, which gives the pair \<open>(-1, 1)\<close> on that
  axis.
\<close>

theorem sentinel_replaced:
  assumes "i < 6"
  shows "(fold (fold_actor r) (map snd (actors r)) initial_bounds ! i = PInf \<longrightarrow>
            bounds r ! i = Fin (- 1)) \<and>
         (fold (fold_actor r) (map snd (actors r)) initial_bounds ! i = NInf \<longrightarrow>
            bounds r ! i = Fin 1)"
proof -
  have "i < length (fold (fold_actor r) (map snd (actors r)) initial_bounds)"
    using assms by (simp add: length_fold_actors initial_bounds_def)
  then show ?thesis unfolding bounds_def by (rule replace_infinite_nth)
qed

theorem sentinel_replaced_witness:
  "(0::nat) < 6 \<and>
   fold (fold_actor (init new_plotter True)) (map snd (actors (init new_plotter True)))
     initial_bounds ! 0 = PInf \<and>
   bounds (init new_plotter True) ! 0 = Fin (- 1) \<and>
   fold (fold_actor (init new_plotter True)) (map snd (actors (init new_plotter True)))
     initial_bounds ! 1 = NInf \<and>
   bounds (init new_plotter True) ! 1 = Fin 1"
  using sentinel_replaced [of 0 "init new_plotter True"]
    sentinel_replaced [of 1 "init new_plotter True"]
  by (simp add: init_def initial_bounds_def)

text \<open>
  The claim as stated (\<open>+inf\<close> becomes \<open>+1\<close> and \<open>-inf\<close> becomes \<open>-1\<close>) fails on the
  accumulator of the empty scene.
\<close>

theorem sentinel_counterexample:
  "initial_bounds ! 0 = PInf \<and> replace_infinite initial_bounds ! 0 \<noteq> Fin 1 \<and>
   initial_bounds ! 1 = NInf \<and> replace_infinite initial_bounds ! 1 \<noteq> Fin (- 1)"
  by (simp add: initial_bounds_def replace_infinite_def)

subsection \<open>Scale and the camera transform\<close>

lemma camera_kept:
  "(\<forall>t f r. True \<longrightarrow> post (\<lambda>r'. camera r' = camera r \<and> scale r' = scale r) (remove_actor n t f r)) \<and>
   (\<forall>r. post (\<lambda>r'. camera r' = camera r \<and> scale r' = scale r) (update_bounds_axes n r)) \<and>
   (\<forall>r. post (\<lambda>r'. camera r' = camera r \<and> scale r' = scale r) (remove_bounding_box n r)) \<and>
   (\<forall>f c r. True \<longrightarrow> post (\<lambda>r'. camera r' = camera r \<and> scale r' = scale r) (add_bounding_box n f c r)) \<and>
   (\<forall>u f nm c p r. True \<longrightarrow> True \<longrightarrow>
      post (\<lambda>r'. camera r' = camera r \<and> scale r' = scale r) (add_actor n u f nm c p r))"
  by (rule group_preserves [where R = "\<lambda>r r'. camera r' = camera r \<and> scale r' = scale r" and F = "\<lambda>_. True"
        and N = "\<lambda>_. True"])
     (auto simp: detach_def RemoveActor_def camera_after_remove_def reset_camera_def render_def
        ResetCamera_def update_cube_axes_def wrap_input_def register_def AddActor_def
        cull_and_finish_def Let_def ResetCameraClippingRange_def SetPickable_def CullingOn_def
        split: option.splits uinput.splits prod.splits)

lemma update_bounds_axes_camera:
  "update_bounds_axes n r = Returned u r' \<Longrightarrow> camera r' = camera r \<and> scale r' = scale r"
  using camera_kept [of n] by (auto simp: post_def split: outcome.splits dest!: spec [of _ r])

lemma update_bounds_axes_no_box:
  "box_object r = None \<or> bounding_box_actor r = None \<Longrightarrow>
   update_bounds_axes (Suc n) r = Returned () (update_cube_axes r)"
  by (auto split: option.splits)

lemma set_scale_transform:
  assumes "set_scale n xs ys zs reset r = Returned u r'"
  shows "model_transform (camera r') =
           (case xs of None \<Rightarrow> fst (scale r) | Some v \<Rightarrow> v,
            case ys of None \<Rightarrow> fst (snd (scale r)) | Some v \<Rightarrow> v,
            case zs of None \<Rightarrow> snd (snd (scale r)) | Some v \<Rightarrow> v)"
proof (cases reset)
  case False
  obtain sx sy sz where sc: "scale r = (sx, sy, sz)" by (cases "scale r")
  with assms False show ?thesis
    by (auto simp: set_scale_def render_def Let_def split: option.splits)
next
  case True
  obtain sx sy sz where sc: "scale r = (sx, sy, sz)" by (cases "scale r")
  let ?x = "case xs of None \<Rightarrow> sx | Some v \<Rightarrow> v"
  let ?y = "case ys of None \<Rightarrow> sy | Some v \<Rightarrow> v"
  let ?z = "case zs of None \<Rightarrow> sz | Some v \<Rightarrow> v"
  let ?r2 = "render (r\<lparr>scale := (?x, ?y, ?z),
                 camera := (camera r)\<lparr>model_transform := (?x, ?y, ?z)\<rparr>\<rparr>)"
  from assms True sc obtain r3 where u: "update_bounds_axes n ?r2 = Returned () r3"
    and r': "r' = reset_camera r3"
    by (auto simp: set_scale_def Let_def seq_def split: outcome.splits)
  from update_bounds_axes_camera [OF u] r' sc show ?thesis
    by (simp add: reset_camera_def render_def ResetCamera_def split: option.splits)
qed

subsection \<open>An explicit camera position stops the automatic refit\<close>

lemma drop_mapper_renders: "renders (drop_mapper m b t p) = renders p"
  by (simp add: drop_mapper_def Let_def split: option.split)

lemma fold_drop_mapper_renders: "renders (fold (drop_mapper m b) ts p) = renders p"
  by (induction ts arbitrary: p) (simp_all add: drop_mapper_renders)

lemma remove_mapper_from_plotter_renders:
  "renders (remove_mapper_from_plotter p a b) = renders p"
  by (simp add: remove_mapper_from_plotter_def fold_drop_mapper_renders split: getmapper.split)

lemma framing_kept_group:
  "(\<forall>t f r. f \<noteq> RcTrue \<longrightarrow> post (framing_kept r) (remove_actor n t f r)) \<and>
   (\<forall>r. post (framing_kept r) (update_bounds_axes n r)) \<and>
   (\<forall>r. post (framing_kept r) (remove_bounding_box n r)) \<and>
   (\<forall>f c r. f \<noteq> RcTrue \<longrightarrow> post (framing_kept r) (add_bounding_box n f c r)) \<and>
   (\<forall>u f nm c p r. f \<noteq> RcTrue \<longrightarrow> True \<longrightarrow>
      post (framing_kept r) (add_actor n u f nm c p r))"
  by (rule group_preserves [where R = framing_kept and F = "\<lambda>f. f \<noteq> RcTrue"
        and N = "\<lambda>_. True"])
     (auto simp: framing_kept_def detach_def RemoveActor_def camera_after_remove_def
        reset_camera_def render_def ResetCamera_def update_cube_axes_def wrap_input_def
        register_def AddActor_def cull_and_finish_def Let_def ResetCameraClippingRange_def
        SetPickable_def CullingOn_def remove_mapper_from_plotter_renders
        split: option.splits uinput.splits prod.splits)

lemma remove_actor_framing:
  "f \<noteq> RcTrue \<Longrightarrow> post (framing_kept r) (remove_actor n t f r)"
  using framing_kept_group [of n] by blast

lemma update_bounds_axes_framing: "post (framing_kept r) (update_bounds_axes n r)"
  using framing_kept_group [of n] by blast

lemma framing_kept_trans: "framing_kept a b \<Longrightarrow> framing_kept b c \<Longrightarrow> framing_kept a c"
  by (auto simp: framing_kept_def)

text \<open>With the camera set, \<^verbatim>\<open>add_actor\<close> asks for a redraw and for no refit.\<close>

lemma add_actor_redraw:
  assumes f: "f \<noteq> RcTrue" and cs: "camera_set r"
  shows "post (\<lambda>r'. framing_kept r r' \<and> renders (parent r) < renders (parent r'))
           (add_actor n u f nm c p r)"
proof (cases n)
  case 0
  then show ?thesis by simp
next
  case (Suc k)
  let ?Q = "\<lambda>r'. framing_kept r r' \<and> renders (parent r) < renders (parent r')"
  show ?thesis
  proof (cases "remove_actor k (case nm of None \<Rightarrow> NoneT | Some x \<Rightarrow> Name x) RcFalse r")
    case OutOfFuel
    then show ?thesis using Suc by simp
  next
    case (Raised e r1)
    then show ?thesis using remove_actor_never_raises by blast
  next
    case (Returned rv r1)
    with remove_actor_framing [of RcFalse r k] have k1: "framing_kept r r1"
      by (metis post_simps(1) reset_flag.distinct(1))
    obtain a r2 where w: "wrap_input u r1 = (a, r2)" by (cases "wrap_input u r1")
    let ?r3 = "register a nm f rv r2"
    from w have k2: "framing_kept r1 r2"
      by (auto simp: wrap_input_def framing_kept_def split: uinput.splits)
    have cs2: "camera_set r2" using k1 k2 cs by (simp add: framing_kept_def)
    then have k3: "framing_kept r2 ?r3 \<and> renders (parent r2) < renders (parent ?r3)"
      using f by (simp add: register_def Let_def AddActor_def render_def framing_kept_def)
    have k13: "?Q ?r3"
      using k1 k2 k3 by (auto simp: framing_kept_def)
    show ?thesis
    proof (cases "update_bounds_axes k ?r3")
      case OutOfFuel
      then show ?thesis using Suc Returned w by simp
    next
      case (Raised e r4)
      then show ?thesis using update_bounds_axes_never_raises by blast
    next
      case r4: (Returned v r4)
      with update_bounds_axes_framing [of ?r3 k] have "framing_kept ?r3 r4" by simp
      with k13 have q4: "?Q r4" by (auto simp: framing_kept_def)
      have "post ?Q (cull_and_finish a c p r4)"
        using q4
        by (auto simp: cull_and_finish_def Let_def framing_kept_def ResetCameraClippingRange_def
              SetPickable_def CullingOn_def)
      then show ?thesis using Suc Returned w r4 by simp
    qed
  qed
qed

lemma remove_actor_redraw:
  assumes "f \<noteq> RcTrue"
  shows "post (framing_kept r) (remove_actor n t f r)"
  using assms by (rule remove_actor_framing)

lemma run_call_framing:
  assumes "reset_of c \<noteq> RcTrue" and "camera_set r" and "run_call n c r = Some r'"
  shows "framing_kept r r' \<and>
         renders (parent r) + (if is_add c then 1 else 0) \<le> renders (parent r')"
proof (cases c)
  case (Add u f nm cu p)
  with assms add_actor_redraw [of f r n u nm cu p] show ?thesis
    by (auto simp: left_by_def split: outcome.splits)
next
  case (Remove t f)
  with assms remove_actor_framing [of f r n t] show ?thesis
    by (auto simp: left_by_def framing_kept_def split: outcome.splits)
qed

lemma run_framing:
  assumes "list_all (\<lambda>c. reset_of c \<noteq> RcTrue) cs" and "camera_set r" and "run n cs r = Some r'"
  shows "framing_kept r r' \<and>
         renders (parent r) + length (filter is_add cs) \<le> renders (parent r')"
  using assms
proof (induction cs arbitrary: r)
  case Nil
  then show ?case by (simp add: framing_kept_def)
next
  case (Cons c cs)
  from Cons.prems obtain r1 where r1: "run_call n c r = Some r1" and rest: "run n cs r1 = Some r'"
    by (auto split: option.splits)
  from Cons.prems r1 have s1: "framing_kept r r1"
    and n1: "renders (parent r) + (if is_add c then 1 else 0) \<le> renders (parent r1)"
    using run_call_framing [of c r n r1] by auto
  from s1 Cons.prems have "camera_set r1" by (simp add: framing_kept_def)
  with Cons.IH [of r1] Cons.prems rest have s2: "framing_kept r1 r'"
    and n2: "renders (parent r1) + length (filter is_add cs) \<le> renders (parent r')"
    by auto
  from s1 s2 n1 n2 show ?case
    by (auto simp: framing_kept_def)
qed

subsection \<open>Names in the registry\<close>

lemma actors_kept [simp]:
  "actors (render r) = actors r" "actors (ResetCamera r) = actors r"
  "actors (reset_camera r) = actors r" "actors (camera_after_remove f r) = actors r"
  "actors (update_cube_axes r) = actors r" "actors (RemoveActor a r) = actors r"
  "actors (AddActor a r) = actors r" "actors (snd (wrap_input u r)) = actors r"
  "actors (SetPickable a b r) = actors r" "actors (CullingOn a fc r) = actors r"
  "actors (ResetCameraClippingRange r) = actors r"
  by (simp_all add: render_def ResetCamera_def reset_camera_def camera_after_remove_def
        update_cube_axes_def RemoveActor_def AddActor_def wrap_input_def SetPickable_def
        CullingOn_def ResetCameraClippingRange_def split: option.splits prod.splits uinput.splits)

lemma box_kept [simp]:
  "box_object (render r) = box_object r" "bounding_box_actor (render r) = bounding_box_actor r"
  "box_object (reset_camera r) = box_object r"
  "bounding_box_actor (reset_camera r) = bounding_box_actor r"
  "box_object (camera_after_remove f r) = box_object r"
  "bounding_box_actor (camera_after_remove f r) = bounding_box_actor r"
  "box_object (update_cube_axes r) = box_object r"
  "bounding_box_actor (update_cube_axes r) = bounding_box_actor r"
  "box_object (detach a nm r) = box_object r"
  "bounding_box_actor (detach a nm r) = bounding_box_actor r"
  "box_object (snd (wrap_input u r)) = box_object r"
  "bounding_box_actor (snd (wrap_input u r)) = bounding_box_actor r"
  "box_object (register a nmo f rv r) = box_object r"
  "bounding_box_actor (register a nmo f rv r) = bounding_box_actor r"
  by (simp_all add: render_def ResetCamera_def reset_camera_def camera_after_remove_def
        update_cube_axes_def RemoveActor_def AddActor_def wrap_input_def detach_def
        register_def Let_def split: option.splits prod.splits uinput.splits)

lemma extends_eq: "extends nm = prefix (nm @ ''-'')"
  by (rule ext) (simp add: extends_def)

lemma remove_actor_Name:
  "remove_actor (Suc n) (Name nm) f r =
     seq (remove_extensions n nm f r) (\<lambda>_ r1. remove_entry n nm f r1)"
proof -
  let ?names = "filter (\<lambda>k. prefix (nm @ ''-'') k) (map fst (actors r))"
  have e: "filter (extends nm) (registry_keys r) = ?names"
    by (simp only: extends_eq registry_keys_def)
  have a: "remove_extensions n nm f r =
          (if length ?names > 0 then remove_actor n (Coll (map Name ?names)) f r
           else Returned False r)"
    unfolding remove_extensions_def e length_greater_0_conv by metis
  show ?thesis
    unfolding remove_actor.simps Let_def a remove_entry_def by (rule refl)
qed

declare remove_actor.simps(2) [simp del]

lemma remove_actor_Obj:
  "remove_actor (Suc n) (Obj a) f r =
     seq (update_bounds_axes n (detach a None r))
       (\<lambda>_ r2. Returned True (camera_after_remove f r2))"
  by simp

lemma Returned_seqE:
  assumes "seq m g = Returned b r'"
  obtains v r1 where "m = Returned v r1" and "g v r1 = Returned b r'"
  using assms by (cases m) simp_all

lemma remove_entry_cases:
  assumes "remove_entry n nm f r = Returned b r'"
  obtains (absent) "map_of (actors r) nm = None" "r' = r" "\<not> b"
  | (present) a r2 where "map_of (actors r) nm = Some a"
      "update_bounds_axes n (detach a (Some nm) r) = Returned () r2"
      "r' = camera_after_remove f r2" "b"
proof (cases "map_of (actors r) nm")
  case None
  with assms have "Returned False r = Returned b r'" by (simp add: remove_entry_def)
  then have "r' = r" "\<not> b" by auto
  with None show ?thesis by (rule absent)
next
  case (Some a)
  with assms have "seq (update_bounds_axes n (detach a (Some nm) r))
                     (\<lambda>_ r2. Returned True (camera_after_remove f r2)) = Returned b r'"
    by (simp add: remove_entry_def)
  then obtain u r2 where "update_bounds_axes n (detach a (Some nm) r) = Returned u r2"
    and "Returned True (camera_after_remove f r2) = Returned b r'"
    by (rule Returned_seqE)
  with Some present show ?thesis by simp
qed

lemma remove_actor_Name_cases:
  assumes "remove_actor n (Name nm) f r = Returned b r'"
  obtains m v r1 where "n = Suc m" "remove_extensions m nm f r = Returned v r1"
    "remove_entry m nm f r1 = Returned b r'"
proof (cases n)
  case 0
  with assms show ?thesis by simp
next
  case (Suc m)
  with assms have "seq (remove_extensions m nm f r) (\<lambda>_ r1. remove_entry m nm f r1)
                     = Returned b r'"
    by (simp add: remove_actor_Name)
  then obtain v r1 where "remove_extensions m nm f r = Returned v r1"
    "remove_entry m nm f r1 = Returned b r'"
    by (rule Returned_seqE)
  with Suc that show ?thesis by blast
qed

lemma hex_digit_no_dash: "d < 16 \<Longrightarrow> hex_digit d \<noteq> CHR ''-''"
proof -
  assume "d < 16"
  then have "d \<in> {0..<16}" by simp
  then have "d \<in> set [0, 1, 2, 3, 4, 5, 6, 7, 8, 9, 10, 11, 12, 13, 14, 15]"
    by (simp add: atLeastLessThan_def) arith
  then show ?thesis by (auto simp: hex_digit_def)
qed

lemma hex_digits_no_dash: "CHR ''-'' \<notin> set (hex_digits n)"
proof (induction n rule: hex_digits.induct)
  case (1 n)
  show ?case
  proof (cases "n < 16")
    case True
    then show ?thesis using hex_digit_no_dash [of n] by (subst hex_digits.simps) auto
  next
    case False
    then show ?thesis
      using 1 hex_digit_no_dash [of "n mod 16"] by (subst hex_digits.simps) auto
  qed
qed

lemma box_name_no_dash: "CHR ''-'' \<notin> set (box_name m)"
  using hex_digits_no_dash [of m] by (simp add: box_name_def hex_def)

lemma extends_dash: "extends nm k \<Longrightarrow> CHR ''-'' \<in> set k"
  by (auto simp: extends_def prefix_def)

lemma extends_not_box_name: "extends nm k \<Longrightarrow> k \<notin> range box_name"
  using extends_dash box_name_no_dash by blast

lemma box_name_prefix: "prefix ''BoundingBox('' (box_name m)"
  by (simp add: box_name_def)

text \<open>Every operation leaves the keys it found, less some, plus names of bounding boxes.\<close>

lemma keys_le_refl: "keys_le r r"
  by (simp add: keys_le_def)

lemma keys_le_trans: "keys_le a b \<Longrightarrow> keys_le b c \<Longrightarrow> keys_le a c"
  unfolding keys_le_def by blast

lemma keys_le_same: "actors r' = actors r \<Longrightarrow> keys_le r r'"
  by (simp add: keys_le_def registry_keys_def)

lemma detach_keys_le: "keys_le r (detach a nm r)"
  using dom_delete_subset [of _ "actors r"]
  by (auto simp: keys_le_def registry_keys_def detach_def Let_def split: option.splits)

lemma keys_le_group:
  "(\<forall>t f r. True \<longrightarrow> post (keys_le r) (remove_actor n t f r)) \<and>
   (\<forall>r. post (keys_le r) (update_bounds_axes n r)) \<and>
   (\<forall>r. post (keys_le r) (remove_bounding_box n r)) \<and>
   (\<forall>f c r. True \<longrightarrow> post (keys_le r) (add_bounding_box n f c r)) \<and>
   (\<forall>u f nm c p r. True \<longrightarrow> nm \<in> Some ` range box_name \<longrightarrow>
      post (keys_le r) (add_actor n u f nm c p r))"
proof (rule group_preserves [where R = keys_le and F = "\<lambda>_. True"
        and N = "\<lambda>nm. nm \<in> Some ` range box_name"])
  show "keys_le r (register a nm f rv r)" if "nm \<in> Some ` range box_name" for a nm f rv r
    using that dom_update [of _ a "actors r"]
    by (auto simp: keys_le_def registry_keys_def register_def Let_def)
  show "post (keys_le r) (cull_and_finish a c p r)" for a c p r
    by (auto simp: cull_and_finish_def Let_def keys_le_same)
qed (auto simp: keys_le_refl detach_keys_le keys_le_same intro: keys_le_trans)

lemma remove_actor_keys_le: "remove_actor n t f r = Returned b r' \<Longrightarrow> keys_le r r'"
  using keys_le_group [of n] by (auto simp: post_def split: outcome.splits dest!: spec)

lemma update_bounds_axes_keys_le: "update_bounds_axes n r = Returned u r' \<Longrightarrow> keys_le r r'"
  using keys_le_group [of n] by (auto simp: post_def split: outcome.splits dest!: spec)

lemma remove_each_keys_le:
  assumes "remove_each (\<lambda>t r'. remove_actor n t f r') ts s r = Returned b r'"
  shows "keys_le r r'"
proof -
  have "post2 (keys_le r) (keys_le r) (remove_each (\<lambda>t r'. remove_actor n t f r') ts s r)"
  proof (rule post2_remove_each [where R = keys_le and X = keys_le])
    show "post2 (keys_le r1) (keys_le r1) (remove_actor n t f r1)" for t r1
      using keys_le_group [of n] by (simp add: post2_same)
  qed (auto simp: keys_le_refl intro: keys_le_trans)
  with assms show ?thesis by simp
qed

lemma keys_le_absent:
  "keys_le r r' \<Longrightarrow> k \<notin> set (registry_keys r) \<Longrightarrow> k \<notin> range box_name \<Longrightarrow>
   k \<notin> set (registry_keys r')"
  unfolding keys_le_def by blast

lemma map_of_registry: "map_of (actors r) k = None \<longleftrightarrow> k \<notin> set (registry_keys r)"
  by (simp add: registry_keys_def map_of_eq_None_iff)

text \<open>A name removed is gone, unless it is the name of a bounding box built meanwhile.\<close>

lemma removed_name_gone:
  assumes "remove_actor n (Name k) f r = Returned b r'" and "k \<notin> range box_name"
  shows "k \<notin> set (registry_keys r')"
  using assms(1)
proof (cases rule: remove_actor_Name_cases)
  case (1 m v r1)
  from 1(3) show ?thesis
  proof (cases rule: remove_entry_cases)
    case absent
    then show ?thesis by (simp add: map_of_registry)
  next
    case (present a r2)
    have "k \<notin> set (registry_keys (detach a (Some k) r1))"
      using delete_notin_dom [of k "actors r1"]
      by (simp add: detach_def Let_def registry_keys_def)
    with update_bounds_axes_keys_le [OF present(2)] assms(2)
    have "k \<notin> set (registry_keys r2)"
      using keys_le_absent [of "detach a (Some k) r1" r2 k] by blast
    with present(3) show ?thesis by (simp add: registry_keys_def)
  qed
qed

lemma removed_names_gone:
  assumes "remove_each (\<lambda>t r'. remove_actor n t f r') (map Name ks) s r = Returned b r'"
    and "\<forall>k\<in>set ks. k \<notin> range box_name"
  shows "\<forall>k\<in>set ks. k \<notin> set (registry_keys r')"
  using assms
proof (induction ks arbitrary: r s)
  case Nil
  then show ?case by simp
next
  case (Cons k ks)
  from Cons.prems(1) obtain rv r1 where one: "remove_actor n (Name k) f r = Returned rv r1"
    and rest: "remove_each (\<lambda>t r'. remove_actor n t f r') (map Name ks) (rv \<or> s) r1 = Returned b r'"
    by (cases "remove_actor n (Name k) f r") auto
  from removed_name_gone [OF one] Cons.prems(2) have "k \<notin> set (registry_keys r1)" by simp
  with remove_each_keys_le [OF rest] Cons.prems(2) have "k \<notin> set (registry_keys r')"
    using keys_le_absent [of r1 r' k] by simp
  moreover from Cons.IH [OF rest] Cons.prems(2) have "\<forall>k\<in>set ks. k \<notin> set (registry_keys r')"
    by simp
  ultimately show ?case by simp
qed

text \<open>The cascade of \<^verbatim>\<open>remove_actor(name)\<close>, whenever the call returns.\<close>

lemma remove_extensions_gone:
  assumes "remove_extensions n nm f r = Returned v r1"
  shows "keys_le r r1 \<and> (\<forall>k\<in>set (registry_keys r1). \<not> extends nm k)"
proof -
  let ?names = "filter (extends nm) (registry_keys r)"
  have le1: "keys_le r r1"
    using assms remove_actor_keys_le [of n "Coll (map Name ?names)" f r v r1]
    by (auto simp: remove_extensions_def keys_le_refl split: if_splits)
  have gone: "\<forall>k\<in>set ?names. k \<notin> set (registry_keys r1)"
  proof (cases "?names = []")
    case True
    then show ?thesis by simp
  next
    case False
    with assms have c: "remove_actor n (Coll (map Name ?names)) f r = Returned v r1"
      by (simp add: remove_extensions_def)
    then obtain m where m: "n = Suc m" by (cases n) simp_all
    with c have "remove_each (\<lambda>t r'. remove_actor m t f r') (map Name ?names) False r
                   = Returned v r1" by simp
    moreover have "\<forall>k\<in>set ?names. k \<notin> range box_name"
      using extends_not_box_name by auto
    ultimately show ?thesis by (rule removed_names_gone)
  qed
  have "\<not> extends nm k" if k: "k \<in> set (registry_keys r1)" for k
  proof
    assume e: "extends nm k"
    with k le1 extends_not_box_name have "k \<in> set (registry_keys r)"
      unfolding keys_le_def by blast
    with e have "k \<in> set ?names" by simp
    with gone k show False by blast
  qed
  with le1 show ?thesis by blast
qed

text \<open>The cascade of \<^verbatim>\<open>remove_actor(name)\<close>, whenever the call returns.\<close>

lemma cascade:
  assumes "remove_actor n (Name nm) f r = Returned b r'"
  shows "(\<forall>k\<in>set (registry_keys r'). \<not> extends nm k) \<and>
         (nm \<notin> set (registry_keys r) \<and> nm \<notin> range box_name \<longrightarrow> \<not> b)"
  using assms
proof (cases rule: remove_actor_Name_cases)
  case (1 m v r1)
  from remove_extensions_gone [OF 1(2)] have le1: "keys_le r r1"
    and none1: "\<forall>k\<in>set (registry_keys r1). \<not> extends nm k" by simp_all
  from 1(3) show ?thesis
  proof (cases rule: remove_entry_cases)
    case absent
    with none1 show ?thesis by simp
  next
    case (present a r2)
    have "keys_le r1 r2"
      using detach_keys_le update_bounds_axes_keys_le [OF present(2)] by (rule keys_le_trans)
    with none1 extends_not_box_name have "\<forall>k\<in>set (registry_keys r2). \<not> extends nm k"
      unfolding keys_le_def by blast
    moreover have "registry_keys r' = registry_keys r2"
      using present(3) by (simp add: registry_keys_def)
    moreover have "nm \<in> set (registry_keys r1)"
      using present(1) by (metis map_of_registry option.distinct(1))
    ultimately show ?thesis using keys_le_absent [OF le1, of nm] by auto
  qed
qed

subsection \<open>Removing a name that is not registered\<close>

lemmas run_all = run_defs remove_actor_Name remove_extensions_def remove_entry_def
  extends_def registry_keys_def actor_Z_def marker_def add_axes_at_origin_def
  depth_10_def

lemma scene_a_eq:
  "scene_a = fresh\<lparr>actors := [(''a'', actor_A)], props := [0, 100],
     pickable := [(100, True)], clip_resets := 1,
     parent := new_plotter\<lparr>renders := 1\<rparr>\<rparr>"
  by (simp add: scene_a_def run_all)

lemma scene_dash_eq:
  "scene_dash = fresh\<lparr>actors := [(''a-1'', actor_B)], props := [0, 101],
     pickable := [(101, True)], clip_resets := 1,
     parent := new_plotter\<lparr>renders := 1\<rparr>\<rparr>"
  by (simp add: scene_dash_def run_all)

lemma scene_pair_eq:
  "scene_pair = fresh\<lparr>actors := [(''a'', actor_A), (''a-1'', actor_B)], props := [0, 100, 101],
     pickable := [(100, True), (101, True)], clip_resets := 2,
     parent := new_plotter\<lparr>renders := 2\<rparr>\<rparr>"
  by (simp add: scene_pair_def scene_a_eq run_all)

lemma not_box_name: "\<not> prefix ''BoundingBox('' nm \<Longrightarrow> nm \<notin> range box_name"
  using box_name_prefix by auto

lemma remove_absent:
  assumes "nm \<notin> set (registry_keys r)" and "\<forall>k\<in>set (registry_keys r). \<not> extends nm k"
  shows "remove_actor (Suc n) (Name nm) f r = Returned False r"
proof -
  from assms(2) have "filter (extends nm) (registry_keys r) = []"
    by (simp add: filter_empty_conv)
  then have "remove_extensions n nm f r = Returned False r"
    by (simp add: remove_extensions_def)
  moreover from assms(1) have "map_of (actors r) nm = None"
    by (simp add: map_of_registry)
  then have "remove_entry n nm f r = Returned False r"
    by (simp add: remove_entry_def)
  ultimately show ?thesis by (simp add: remove_actor_Name)
qed

text \<open>
  Claim C4, as amended. For a name \<open>nm\<close> that is not a key of the registry and that no key
  extends (no key starts with \<open>nm\<close> followed by \<open>-\<close>), \<^verbatim>\<open>remove_actor(nm)\<close> returns false
  and leaves the renderer as it is; \<^verbatim>\<open>remove_actor(None)\<close> does the same; and when
  \<^verbatim>\<open>remove_actor(nm)\<close> has returned, for a name other than those of bounding boxes, a
  second \<^verbatim>\<open>remove_actor(nm)\<close> returns false and changes nothing.
\<close>

theorem remove_absent_name:
  "(nm \<notin> set (registry_keys r) \<and> (\<forall>k\<in>set (registry_keys r). \<not> extends nm k) \<longrightarrow>
      remove_actor (Suc n) (Name nm) f r = Returned False r) \<and>
   remove_actor (Suc n) NoneT f r = Returned False r \<and>
   (remove_actor m (Name nm) f r = Returned b r1 \<and> \<not> prefix ''BoundingBox('' nm \<longrightarrow>
      remove_actor (Suc n) (Name nm) f' r1 = Returned False r1)"
proof (intro conjI impI)
  assume "nm \<notin> set (registry_keys r) \<and> (\<forall>k\<in>set (registry_keys r). \<not> extends nm k)"
  then show "remove_actor (Suc n) (Name nm) f r = Returned False r"
    using remove_absent by blast
next
  show "remove_actor (Suc n) NoneT f r = Returned False r" by simp
next
  assume a: "remove_actor m (Name nm) f r = Returned b r1 \<and> \<not> prefix ''BoundingBox('' nm"
  then have nb: "nm \<notin> range box_name" by (simp add: not_box_name)
  from a removed_name_gone [of m nm f r b r1] nb have "nm \<notin> set (registry_keys r1)" by blast
  moreover from a cascade [of m nm f r b r1] have "\<forall>k\<in>set (registry_keys r1). \<not> extends nm k"
    by blast
  ultimately show "remove_actor (Suc n) (Name nm) f' r1 = Returned False r1"
    by (rule remove_absent)
qed

theorem remove_absent_name_witness:
  "''b'' \<notin> set (registry_keys scene_a) \<and>
   list_all (\<lambda>k. \<not> extends ''b'' k) (registry_keys scene_a) \<and>
   remove_actor (Suc 0) (Name ''b'') RcFalse scene_a = Returned False scene_a \<and>
   remove_actor (Suc 0) NoneT RcFalse scene_a = Returned False scene_a \<and>
   remove_actor (Suc (Suc 0)) (Name ''a'') RcFalse scene_a =
     Returned True (scene_a\<lparr>actors := [], props := [0], parent := new_plotter\<lparr>renders := 2\<rparr>\<rparr>) \<and>
   \<not> prefix ''BoundingBox('' ''a'' \<and>
   remove_actor (Suc 0) (Name ''a'') RcFalse
       (scene_a\<lparr>actors := [], props := [0], parent := new_plotter\<lparr>renders := 2\<rparr>\<rparr>) =
     Returned False (scene_a\<lparr>actors := [], props := [0], parent := new_plotter\<lparr>renders := 2\<rparr>\<rparr>)"
proof -
  have 1: "''b'' \<notin> set (registry_keys scene_a)"
    and 2: "\<forall>k\<in>set (registry_keys scene_a). \<not> extends ''b'' k"
    by (simp_all add: scene_a_eq registry_keys_def extends_def)
  have 3: "remove_actor (Suc (Suc 0)) (Name ''a'') RcFalse scene_a =
     Returned True (scene_a\<lparr>actors := [], props := [0], parent := new_plotter\<lparr>renders := 2\<rparr>\<rparr>)"
    by (simp add: scene_a_eq run_all)
  have 4: "\<not> prefix ''BoundingBox('' ''a''" by simp
  from remove_absent_name [of "''b''" scene_a 0 RcFalse "Suc (Suc 0)" False scene_a RcFalse] 1 2
  have "remove_actor (Suc 0) (Name ''b'') RcFalse scene_a = Returned False scene_a"
    and "remove_actor (Suc 0) NoneT RcFalse scene_a = Returned False scene_a"
    by blast+
  moreover from remove_absent_name [of "''a''" scene_a 0 RcFalse "Suc (Suc 0)" True
      "scene_a\<lparr>actors := [], props := [0], parent := new_plotter\<lparr>renders := 2\<rparr>\<rparr>" RcFalse] 3 4
  have "remove_actor (Suc 0) (Name ''a'') RcFalse
       (scene_a\<lparr>actors := [], props := [0], parent := new_plotter\<lparr>renders := 2\<rparr>\<rparr>) =
     Returned False (scene_a\<lparr>actors := [], props := [0], parent := new_plotter\<lparr>renders := 2\<rparr>\<rparr>)"
    by blast
  ultimately show ?thesis using 1 2 3 4 by (simp add: list_all_iff)
qed

text \<open>
  The claim as stated fails where a key extends the absent name: with \<open>B\<close> registered
  under \<open>a-1\<close> and nothing under \<open>a\<close>, \<^verbatim>\<open>remove_actor('a')\<close> returns false, and the entry
  \<open>a-1\<close> is removed and \<open>B\<close> detached.
\<close>

theorem remove_absent_name_counterexample:
  "''a'' \<notin> set (registry_keys scene_dash) \<and> registry_keys scene_dash = [''a-1''] \<and>
   remove_actor depth_10 (Name ''a'') RcFalse scene_dash =
     Returned False (scene_dash\<lparr>actors := [], props := [0],
        parent := new_plotter\<lparr>renders := 2\<rparr>\<rparr>)"
  by (simp add: scene_dash_eq run_all)

subsection \<open>Enough depth: the operations finish\<close>

lemma Returned_or_OutOfFuel:
  "remove_actor n t f r \<noteq> OutOfFuel \<Longrightarrow> \<exists>b r'. remove_actor n t f r = Returned b r'"
  using remove_actor_never_raises [of n t f r] by (cases "remove_actor n t f r") auto

lemma update_Returned_or_OutOfFuel:
  "update_bounds_axes n r \<noteq> OutOfFuel \<Longrightarrow> \<exists>r'. update_bounds_axes n r = Returned () r'"
  using update_bounds_axes_never_raises [of n r] by (cases "update_bounds_axes n r") auto

lemma extended_keys_le:
  assumes "keys_le r r'"
  shows "set (filter P (filter (\<lambda>k. CHR ''-'' \<in> set k) (registry_keys r')))
           \<subseteq> set (filter P (filter (\<lambda>k. CHR ''-'' \<in> set k) (registry_keys r)))"
  using assms box_name_no_dash unfolding keys_le_def by auto

lemma dashed_mono: "keys_le r r' \<Longrightarrow> dashed r' \<le> dashed r"
  using extended_keys_le [of r r' "\<lambda>_. True"]
  by (simp add: dashed_def length_remdups_card_conv card_mono)

lemma extends_filter:
  "filter (extends nm) ks = filter (extends nm) (filter (\<lambda>k. CHR ''-'' \<in> set k) ks)"
  by (induction ks) (auto dest: extends_dash)

lemma extensions_mono: "keys_le r r' \<Longrightarrow> extensions nm r' \<le> extensions nm r"
  using extended_keys_le [of r r' "extends nm"] extends_filter [of nm]
  by (simp add: extensions_def length_remdups_card_conv card_mono)

lemma extensions_le_dashed: "extensions nm r \<le> dashed r"
proof -
  have "set (filter (extends nm) (registry_keys r))
          \<subseteq> set (filter (\<lambda>k. CHR ''-'' \<in> set k) (registry_keys r))"
    by (auto dest: extends_dash)
  then show ?thesis
    by (simp add: extensions_def dashed_def length_remdups_card_conv card_mono)
qed

lemma extends_trans: "extends nm k \<Longrightarrow> extends k k' \<Longrightarrow> extends nm k'"
  by (auto simp: extends_def prefix_def)

lemma extensions_less:
  assumes "k \<in> set (registry_keys r)" and "extends nm k"
  shows "extensions k r < extensions nm r"
proof -
  have "set (filter (extends k) (registry_keys r)) \<subset> set (filter (extends nm) (registry_keys r))"
  proof
    show "set (filter (extends k) (registry_keys r)) \<subseteq> set (filter (extends nm) (registry_keys r))"
      using assms(2) by (auto intro: extends_trans)
    have "k \<in> set (filter (extends nm) (registry_keys r))" using assms by simp
    moreover have "k \<notin> set (filter (extends k) (registry_keys r))"
      by (simp add: extends_def prefix_def)
    ultimately show "set (filter (extends k) (registry_keys r))
                       \<noteq> set (filter (extends nm) (registry_keys r))" by blast
  qed
  then show ?thesis
    by (simp add: extensions_def length_remdups_card_conv psubset_card_mono)
qed

lemma fold_max_le: "fold max xs (a::nat) \<le> n \<longleftrightarrow> a \<le> n \<and> (\<forall>x\<in>set xs. x \<le> n)"
  by (induction xs arbitrary: a) auto

lemma need_of_mono:
  "(\<And>nm. c' nm \<le> c nm) \<Longrightarrow> u' \<le> u \<Longrightarrow> need_of c' u' t \<le> need_of c u t"
proof (induction t)
  case (Coll ts)
  have "fold max (map (need_of c' u') ts) 0 \<le> fold max (map (need_of c u) ts) 0"
  proof (subst fold_max_le, intro conjI ballI)
    fix x assume "x \<in> set (map (need_of c' u') ts)"
    then obtain t where t: "t \<in> set ts" "x = need_of c' u' t" by auto
    with Coll have "x \<le> need_of c u t" by blast
    moreover have "need_of c u t \<le> fold max (map (need_of c u) ts) 0"
      using t(1) fold_max_le [of "map (need_of c u) ts" 0 "fold max (map (need_of c u) ts) 0"]
      by simp
    ultimately show "x \<le> fold max (map (need_of c u) ts) 0" by simp
  qed simp
  then show ?case by simp
next
  case (Name nm)
  from Name(1) [of nm] Name(2) have "2 * c' nm + u' \<le> 2 * c nm + u" by arith
  then show ?case by simp
qed simp_all

text \<open>
  \<^verbatim>\<open>remove_actor\<close> finishes at the depth \<open>need_of\<close> gives, over any class \<open>P\<close> of
  renderers that its steps do not leave and on which \<^verbatim>\<open>update_bounds_axes\<close> finishes at
  a depth \<open>ub\<close> that does not grow as keys are removed.
\<close>

lemma remove_actor_finishes_gen:
  fixes P :: "renderer \<Rightarrow> bool" and ub :: "renderer \<Rightarrow> nat"
  assumes upd: "\<And>k r. P r \<Longrightarrow> ub r \<le> k \<Longrightarrow> update_bounds_axes k r \<noteq> OutOfFuel"
    and closed: "\<And>k t f r b r'. P r \<Longrightarrow> remove_actor k t f r = Returned b r' \<Longrightarrow> P r'"
    and detachP: "\<And>a nm r. P r \<Longrightarrow> P (detach a nm r)"
    and ub_mono: "\<And>r r'. keys_le r r' \<Longrightarrow> ub r' \<le> ub r"
  shows "P r \<Longrightarrow> need_of (\<lambda>nm. extensions nm r) (ub r) t \<le> n \<Longrightarrow>
         remove_actor n t f r \<noteq> OutOfFuel"
proof (induction n arbitrary: t r)
  case 0
  then show ?case by (cases t) simp_all
next
  case (Suc n)
  show ?case
  proof (cases t)
    case NoneT
    then show ?thesis by simp
  next
    case (Obj a)
    with Suc.prems have "ub r \<le> n" by simp
    moreover have "ub (detach a None r) \<le> ub r" by (rule ub_mono [OF detach_keys_le])
    ultimately have "update_bounds_axes n (detach a None r) \<noteq> OutOfFuel"
      using upd [OF detachP [OF Suc.prems(1)]] by simp
    with update_Returned_or_OutOfFuel obtain r2 where
      "update_bounds_axes n (detach a None r) = Returned () r2" by blast
    with Obj show ?thesis by simp
  next
    case (Coll ts)
    from Suc.prems(2) Coll have all: "\<forall>t\<in>set ts. need_of (\<lambda>nm. extensions nm r) (ub r) t \<le> n"
      by (simp add: fold_max_le)
    have each: "P r1 \<Longrightarrow> keys_le r r1 \<Longrightarrow> set us \<subseteq> set ts \<Longrightarrow>
                remove_each (\<lambda>t r'. remove_actor n t f r') us s r1 \<noteq> OutOfFuel" for us s r1
    proof (induction us arbitrary: s r1)
      case Nil
      then show ?case by simp
    next
      case (Cons t us)
      have "need_of (\<lambda>nm. extensions nm r1) (ub r1) t \<le> need_of (\<lambda>nm. extensions nm r) (ub r) t"
        by (rule need_of_mono) (simp_all add: extensions_mono ub_mono Cons.prems(2))
      with all Cons.prems(3) have "need_of (\<lambda>nm. extensions nm r1) (ub r1) t \<le> n" by force
      with Suc.IH [OF Cons.prems(1)] have "remove_actor n t f r1 \<noteq> OutOfFuel" by blast
      with Returned_or_OutOfFuel obtain rv r2 where one: "remove_actor n t f r1 = Returned rv r2"
        by blast
      have "P r2" using closed [OF Cons.prems(1) one] .
      moreover have "keys_le r r2"
        using Cons.prems(2) remove_actor_keys_le [OF one] by (rule keys_le_trans)
      ultimately have "remove_each (\<lambda>t r'. remove_actor n t f r') us (rv \<or> s) r2 \<noteq> OutOfFuel"
        using Cons.IH Cons.prems(3) by simp
      with one show ?case by simp
    qed
    from each [OF Suc.prems(1) keys_le_refl subset_refl] Coll show ?thesis by simp
  next
    case (Name nm)
    let ?c = "extensions nm r"
    let ?names = "filter (extends nm) (registry_keys r)"
    from Suc.prems(2) Name have n: "2 * ?c + ub r \<le> n" by simp
    have "\<exists>v r1. remove_extensions n nm f r = Returned v r1 \<and> P r1 \<and> keys_le r r1"
    proof (cases "?names = []")
      case True
      then have "remove_extensions n nm f r = Returned False r"
        by (simp add: remove_extensions_def)
      with Suc.prems(1) keys_le_refl show ?thesis by blast
    next
      case False
      have bound: "need_of (\<lambda>nm. extensions nm r) (ub r) t' \<le> 2 * ?c + ub r - 1 \<and> 1 \<le> ?c"
        if "t' \<in> set (map Name ?names)" for t'
      proof -
        from that obtain k where k: "t' = Name k" "k \<in> set (registry_keys r)" "extends nm k"
          by auto
        from extensions_less [OF k(2,3)] k(1) show ?thesis by simp
      qed
      from False obtain t0 where "t0 \<in> set (map Name ?names)"
        by (cases ?names) auto
      with bound have c1: "1 \<le> ?c" by blast
      have "fold max (map (need_of (\<lambda>nm. extensions nm r) (ub r)) (map Name ?names)) 0
              \<le> 2 * ?c + ub r - 1"
      proof (subst fold_max_le, intro conjI ballI)
        fix x
        assume "x \<in> set (map (need_of (\<lambda>nm. extensions nm r) (ub r)) (map Name ?names))"
        then obtain t' where "t' \<in> set (map Name ?names)"
          "x = need_of (\<lambda>nm. extensions nm r) (ub r) t'"
          by (metis (no_types, lifting) image_iff list.set_map)
        with bound show "x \<le> 2 * ?c + ub r - 1" by blast
      qed simp
      with c1 have "Suc (fold max (map (need_of (\<lambda>nm. extensions nm r) (ub r))
                      (map Name ?names)) 0) \<le> 2 * ?c + ub r"
        by arith
      then have "need_of (\<lambda>nm. extensions nm r) (ub r) (Coll (map Name ?names))
                         \<le> 2 * ?c + ub r"
        by (simp only: need_of.simps)
      with n Suc.IH [OF Suc.prems(1), of "Coll (map Name ?names)"]
      have "remove_actor n (Coll (map Name ?names)) f r \<noteq> OutOfFuel" by simp
      with Returned_or_OutOfFuel obtain v r1 where
        c: "remove_actor n (Coll (map Name ?names)) f r = Returned v r1" by blast
      with False closed [OF Suc.prems(1) c] remove_actor_keys_le [OF c] show ?thesis
        by (simp add: remove_extensions_def)
    qed
    then obtain v r1 where first: "remove_extensions n nm f r = Returned v r1"
      and P1: "P r1" and le1: "keys_le r r1" by blast
    have "remove_entry n nm f r1 \<noteq> OutOfFuel"
    proof (cases "map_of (actors r1) nm")
      case None
      then show ?thesis by (simp add: remove_entry_def)
    next
      case (Some a)
      have "ub (detach a (Some nm) r1) \<le> ub r"
        using ub_mono [OF keys_le_trans [OF le1 detach_keys_le]] .
      with n have "ub (detach a (Some nm) r1) \<le> n" by simp
      with upd [OF detachP [OF P1]] have "update_bounds_axes n (detach a (Some nm) r1) \<noteq> OutOfFuel"
        by blast
      with update_Returned_or_OutOfFuel obtain r2 where
        "update_bounds_axes n (detach a (Some nm) r1) = Returned () r2" by blast
      with Some show ?thesis by (simp add: remove_entry_def)
    qed
    with first Name show ?thesis by (simp add: remove_actor_Name)
  qed
qed

text \<open>Without an active bounding box, removals leave the bounding-box fields alone.\<close>

lemma update_no_box_result:
  assumes "no_box r" and "update_bounds_axes n r = Returned u r'"
  shows "r' = update_cube_axes r"
proof (cases n)
  case 0
  with assms show ?thesis by simp
next
  case (Suc k)
  with assms update_bounds_axes_no_box [of r k] show ?thesis by (simp add: no_box_def)
qed

lemma no_box_detach [simp]: "no_box (detach a nm r) = no_box r"
  by (simp add: no_box_def)

lemma same_box_no_box: "no_box r \<Longrightarrow> same_box r r' \<Longrightarrow> no_box r'"
  by (simp add: same_box_def no_box_def)

lemma remove_each_same_box:
  assumes step: "\<And>t r1 b r2. no_box r1 \<Longrightarrow> rm t r1 = Returned b r2 \<Longrightarrow> same_box r1 r2"
  shows "no_box r \<Longrightarrow> remove_each rm ts s r = Returned b r' \<Longrightarrow> same_box r r'"
proof (induction ts arbitrary: r s)
  case Nil
  then show ?case by (simp add: same_box_def)
next
  case (Cons t ts)
  from Cons.prems(2) obtain rv r1 where one: "rm t r = Returned rv r1"
    and rest: "remove_each rm ts (rv \<or> s) r1 = Returned b r'"
    by (cases "rm t r") auto
  from step [OF Cons.prems(1) one] have s1: "same_box r r1" .
  with Cons.prems(1) have "no_box r1" by (rule same_box_no_box)
  from Cons.IH [OF this rest] s1 show ?case by (simp add: same_box_def)
qed

lemma remove_entry_same_box:
  assumes "no_box r" and "remove_entry n nm f r = Returned b r'"
  shows "same_box r r'"
  using assms(2)
proof (cases rule: remove_entry_cases)
  case absent
  then show ?thesis by (simp add: same_box_def)
next
  case (present a r2)
  from update_no_box_result [OF _ present(2)] assms(1) have "r2 = update_cube_axes (detach a (Some nm) r)"
    by simp
  with present(3) show ?thesis by (simp add: same_box_def)
qed

lemma remove_actor_same_box:
  "no_box r \<Longrightarrow> remove_actor n t f r = Returned b r' \<Longrightarrow> same_box r r'"
proof (induction n arbitrary: t r b r')
  case 0
  then show ?case by simp
next
  case (Suc n)
  show ?case
  proof (cases t)
    case NoneT
    with Suc.prems show ?thesis by (simp add: same_box_def)
  next
    case (Obj a)
    with Suc.prems(2) have "seq (update_bounds_axes n (detach a None r))
        (\<lambda>_ r2. Returned True (camera_after_remove f r2)) = Returned b r'" by simp
    then obtain u r2 where u: "update_bounds_axes n (detach a None r) = Returned u r2"
      and r': "Returned True (camera_after_remove f r2) = Returned b r'"
      by (rule Returned_seqE)
    from update_no_box_result [OF _ u] Suc.prems(1) have "r2 = update_cube_axes (detach a None r)"
      by simp
    with r' show ?thesis by (auto simp: same_box_def)
  next
    case (Coll ts)
    with Suc.prems(2) have "remove_each (\<lambda>t r'. remove_actor n t f r') ts False r = Returned b r'"
      by simp
    with Suc.prems(1) show ?thesis
      by (rule remove_each_same_box [rotated]) (rule Suc.IH)
  next
    case (Name nm)
    with Suc.prems(2) have "seq (remove_extensions n nm f r) (\<lambda>_ r1. remove_entry n nm f r1)
                              = Returned b r'"
      by (simp add: remove_actor_Name)
    then obtain v r1 where first: "remove_extensions n nm f r = Returned v r1"
      and second: "remove_entry n nm f r1 = Returned b r'"
      by (rule Returned_seqE)
    have s1: "same_box r r1"
    proof (cases "filter (extends nm) (registry_keys r) = []")
      case True
      with first show ?thesis by (simp add: remove_extensions_def same_box_def)
    next
      case False
      with first Suc.IH [OF Suc.prems(1)] show ?thesis by (simp add: remove_extensions_def)
    qed
    with Suc.prems(1) have "no_box r1" by (rule same_box_no_box)
    from remove_entry_same_box [OF this second] s1 show ?thesis by (simp add: same_box_def)
  qed
qed

lemma remove_actor_finishes_no_box:
  assumes "no_box r" and "need_of (\<lambda>nm. extensions nm r) 1 t \<le> n"
  shows "\<exists>b r'. remove_actor n t f r = Returned b r' \<and> same_box r r' \<and> keys_le r r'"
proof -
  have "remove_actor n t f r \<noteq> OutOfFuel"
  proof (rule remove_actor_finishes_gen [where P = no_box and ub = "\<lambda>_. 1"])
    show "update_bounds_axes k r \<noteq> OutOfFuel" if "no_box r" "1 \<le> k" for k r
    proof -
      from that(2) obtain j where "k = Suc j" by (cases k) simp_all
      with that(1) update_bounds_axes_no_box [of r j] show ?thesis by (simp add: no_box_def)
    qed
    show "no_box r'" if "no_box r" "remove_actor k t f r = Returned b r'" for k t f r b r'
      using that(1) remove_actor_same_box [OF that] by (rule same_box_no_box)
  qed (use assms in simp_all)
  with Returned_or_OutOfFuel obtain b r' where "remove_actor n t f r = Returned b r'" by blast
  with remove_actor_same_box [OF assms(1) this] remove_actor_keys_le [OF this] show ?thesis
    by blast
qed

text \<open>\<^verbatim>\<open>add_actor\<close> without an active bounding box, step by step.\<close>

lemma add_actor_no_box:
  assumes "no_box r"
    and "need_of (\<lambda>nm. extensions nm r) 1 (case nm of None \<Rightarrow> NoneT | Some x \<Rightarrow> Name x) \<le> n"
    and "1 \<le> n"
  obtains rv r1 a r2 where
    "remove_actor n (case nm of None \<Rightarrow> NoneT | Some x \<Rightarrow> Name x) RcFalse r = Returned rv r1"
    "same_box r r1" "keys_le r r1" "wrap_input u r1 = (a, r2)"
    "add_actor (Suc n) u f nm c p r =
       cull_and_finish a c p (update_cube_axes (register a nm f rv r2))"
proof -
  from remove_actor_finishes_no_box [OF assms(1,2)] obtain rv r1 where
    rm: "remove_actor n (case nm of None \<Rightarrow> NoneT | Some x \<Rightarrow> Name x) RcFalse r = Returned rv r1"
    and sb: "same_box r r1" and kl: "keys_le r r1" by blast
  obtain a r2 where w: "wrap_input u r1 = (a, r2)" by (cases "wrap_input u r1")
  have "no_box r1" using assms(1) sb by (rule same_box_no_box)
  then have "no_box (register a nm f rv r2)"
    using w box_kept(11,12) [of u r1] by (simp add: no_box_def)
  moreover from assms(3) obtain k where "n = Suc k" by (cases n) simp_all
  ultimately have "update_bounds_axes n (register a nm f rv r2)
                     = Returned () (update_cube_axes (register a nm f rv r2))"
    using update_bounds_axes_no_box [of "register a nm f rv r2" k] by (simp add: no_box_def)
  with rm w have "add_actor (Suc n) u f nm c p r =
       cull_and_finish a c p (update_cube_axes (register a nm f rv r2))"
    by simp
  with rm sb kl w that show ?thesis by blast
qed

lemma registry_keys_simps [simp]:
  "registry_keys (r\<lparr>bounding_box_actor := x\<rparr>) = registry_keys r"
  "registry_keys (r\<lparr>box_object := y\<rparr>) = registry_keys r"
  "registry_keys (r\<lparr>next_id := z\<rparr>) = registry_keys r"
  by (simp_all add: registry_keys_def)

lemma dashed_cong: "registry_keys r' = registry_keys r \<Longrightarrow> dashed r' = dashed r"
  by (simp add: dashed_def)

text \<open>\<^verbatim>\<open>update_bounds_axes\<close> finishes at the depth \<open>update_depth\<close>, in every state.\<close>

lemma update_bounds_axes_finishes:
  assumes "update_depth r \<le> n"
  shows "\<exists>r'. update_bounds_axes n r = Returned () r'"
proof -
  from assms obtain k where n: "n = Suc k" and k: "2 * dashed r + 4 \<le> k"
    by (cases n) (simp_all add: update_depth_def)
  show ?thesis
  proof (cases "box_object r")
    case None
    then show ?thesis using n by simp
  next
    case (Some bb)
    show ?thesis
    proof (cases "bounding_box_actor r")
      case None
      then show ?thesis using n Some by simp
    next
      case (Some a)
      show ?thesis
      proof (cases "allclose bb (bounds r)")
        case True
        then show ?thesis using n Some \<open>box_object r = Some bb\<close> by simp
      next
        case False
        from k obtain k1 where k1: "k = Suc k1" and k1': "2 * dashed r + 3 \<le> k1"
          by (cases k) simp_all
        from k1' obtain k2 where k2: "k1 = Suc k2" and k2': "2 * dashed r + 2 \<le> k2"
          by (cases k1) simp_all
        let ?r0 = "r\<lparr>bounding_box_actor := None, box_object := None\<rparr>"
        have nb0: "no_box ?r0" by (simp add: no_box_def)
        have "need_of (\<lambda>nm. extensions nm ?r0) 1 (Obj a) \<le> k1" using k1' by simp
        from remove_actor_finishes_no_box [OF nb0 this] obtain b r1 where
          rm: "remove_actor k1 (Obj a) RcFalse ?r0 = Returned b r1"
          and sb1: "same_box ?r0 r1" and kl1: "keys_le ?r0 r1" by blast
        have rbb: "remove_bounding_box k r = Returned () r1"
          using k1 rm Some \<open>box_object r = Some bb\<close> by simp
        from sb1 have box1: "box_object r1 = None" and bba1: "bounding_box_actor r1 = None"
          by (simp_all add: same_box_def)
        have d1: "dashed r1 \<le> dashed r"
          using dashed_mono [OF kl1] dashed_cong [of ?r0 r] by simp
        have rbb1: "remove_bounding_box k1 r1 = Returned () r1"
          using k2 box1 by simp
        let ?r2 = "r1\<lparr>box_object := Some (bounds r1), next_id := Suc (Suc (next_id r1))\<rparr>"
        let ?m = "\<lparr>mid = Suc (next_id r1), mapper_bounds = box_of (bounds r1)\<rparr>"
        have nb2: "no_box ?r2" using bba1 by (simp add: no_box_def)
        have "extensions (box_name (next_id r1)) ?r2 \<le> dashed ?r2"
          by (rule extensions_le_dashed)
        also have "dashed ?r2 = dashed r1" by (rule dashed_cong) simp
        finally have "need_of (\<lambda>nm. extensions nm ?r2) 1
             (case Some (box_name (next_id r1)) of None \<Rightarrow> NoneT | Some x \<Rightarrow> Name x) \<le> k2"
          using d1 k2' by simp
        moreover have "1 \<le> k2" using k2' by simp
        ultimately obtain rv r3 a' r4 where
          add: "add_actor (Suc k2) (UMapper ?m) RcNone (Some (box_name (next_id r1)))
                  (CullStr ''front'') False ?r2 =
                cull_and_finish a' (CullStr ''front'') False
                  (update_cube_axes (register a' (Some (box_name (next_id r1))) RcNone rv r4))"
          by (rule add_actor_no_box [OF nb2])
        have "recognised (CullStr ''front'')"
          by (simp add: recognised_def lower_def lower_char_def)
        from cull_and_finish_recognised [OF this] add obtain r5 where
          "add_actor k1 (UMapper ?m) RcNone (Some (box_name (next_id r1)))
             (CullStr ''front'') False ?r2 = Returned a' r5"
          unfolding k2 by metis
        with rbb1 have "add_bounding_box k RcNone (CullStr ''front'') r1
                          = Returned a' (r5\<lparr>bounding_box_actor := Some a'\<rparr>)"
          unfolding k1 by (simp add: Let_def)
        with rbb show ?thesis
          using n Some \<open>box_object r = Some bb\<close> False by simp
      qed
    qed
  qed
qed

text \<open>\<^verbatim>\<open>remove_actor\<close> finishes at the depth \<open>remove_depth\<close>, in every state.\<close>

lemma remove_actor_finishes:
  assumes "remove_depth r t \<le> n"
  shows "\<exists>b r'. remove_actor n t f r = Returned b r'"
proof -
  have "remove_actor n t f r \<noteq> OutOfFuel"
  proof (rule remove_actor_finishes_gen [where P = "\<lambda>_. True" and ub = update_depth])
    show "update_bounds_axes k r \<noteq> OutOfFuel" if "update_depth r \<le> k" for k r
      using update_bounds_axes_finishes [OF that] by auto
    show "update_depth r' \<le> update_depth r" if "keys_le r r'" for r r'
      using dashed_mono [OF that] by (simp add: update_depth_def)
  qed (use assms in \<open>simp_all add: remove_depth_def\<close>)
  then show ?thesis by (rule Returned_or_OutOfFuel)
qed

subsection \<open>The cascade over the names that extend a name\<close>




subsection \<open>Sequences of calls finish\<close>

lemma dashed_update: "dashed (r\<lparr>actors := AList.update k v (actors r)\<rparr>) \<le> Suc (dashed r)"
proof -
  let ?D = "\<lambda>ks. set (filter (\<lambda>k. CHR ''-'' \<in> set k) ks)"
  have "?D (map fst (AList.update k v (actors r))) \<subseteq> insert k (?D (map fst (actors r)))"
    using dom_update [of k v "actors r"] by auto
  then have "card (?D (map fst (AList.update k v (actors r))))
               \<le> card (insert k (?D (map fst (actors r))))"
    by (intro card_mono) simp_all
  also have "\<dots> \<le> Suc (card (?D (map fst (actors r))))"
    by (rule card_insert_le_m1) simp_all
  finally show ?thesis
    by (simp add: dashed_def registry_keys_def length_remdups_card_conv)
qed

lemma register_actors:
  "actors (register a nm f rv r) =
     AList.update (case nm of None \<Rightarrow> hex (aid a) | Some x \<Rightarrow> x) a (actors r)"
  by (simp add: register_def Let_def)

lemma dashed_register: "dashed (register a nm f rv r) \<le> Suc (dashed r)"
proof -
  have "registry_keys (register a nm f rv r) =
          registry_keys (r\<lparr>actors := AList.update (case nm of None \<Rightarrow> hex (aid a) | Some x \<Rightarrow> x) a
            (actors r)\<rparr>)"
    by (simp add: registry_keys_def register_actors)
  then show ?thesis using dashed_update [where r = r] by (simp add: dashed_def)
qed

lemma dashed_same: "actors r' = actors r \<Longrightarrow> dashed r' = dashed r"
  by (simp add: dashed_def registry_keys_def)

text \<open>\<^verbatim>\<open>add_actor\<close> finishes at the depth \<open>add_depth\<close>, in every state.\<close>

lemma add_actor_finishes:
  assumes "add_depth r nm \<le> n"
  shows "\<exists>r'. left_by (add_actor n u f nm c p r) = Some r' \<and> dashed r' \<le> Suc (dashed r)"
proof -
  let ?t = "case nm of None \<Rightarrow> NoneT | Some x \<Rightarrow> Name x"
  from assms obtain k where n: "n = Suc k" and k: "remove_depth r ?t \<le> k"
    "update_depth r + 2 \<le> k"
    by (cases n) (auto simp: add_depth_def)
  from remove_actor_finishes [OF k(1)] obtain rv r1 where
    rm: "remove_actor k ?t RcFalse r = Returned rv r1" by blast
  have d1: "dashed r1 \<le> dashed r" using remove_actor_keys_le [OF rm] by (rule dashed_mono)
  obtain a r2 where w: "wrap_input u r1 = (a, r2)" by (cases "wrap_input u r1")
  have "actors r2 = actors r1" using w actors_kept(8) [of u r1] by simp
  then have d2: "dashed r2 = dashed r1" by (rule dashed_same)
  let ?r3 = "register a nm f rv r2"
  have d3: "dashed ?r3 \<le> Suc (dashed r)"
    using dashed_register [of a nm f rv r2] d1 d2 by simp
  then have "update_depth ?r3 \<le> k" using k(2) by (simp add: update_depth_def)
  from update_bounds_axes_finishes [OF this] obtain r4 where
    upd: "update_bounds_axes k ?r3 = Returned () r4" by blast
  have d4: "dashed r4 \<le> Suc (dashed r)"
    using dashed_mono [OF update_bounds_axes_keys_le [OF upd]] d3 by simp
  have add: "add_actor n u f nm c p r = cull_and_finish a c p r4"
    unfolding n add_actor.simps by (simp add: rm w upd del: update_bounds_axes.simps)
  show ?thesis
  proof (cases "recognised c")
    case True
    from cull_and_finish_recognised [OF this, of a p r4] obtain r' where
      "cull_and_finish a c p r4 = Returned a r'" "actors r' = actors r4" by blast
    with add d4 dashed_same [of r' r4] show ?thesis by (simp add: left_by_def)
  next
    case False
    from cull_and_finish_unrecognised [OF this, of a p r4] add d4 show ?thesis
      by (simp add: left_by_def)
  qed
qed

lemma need_of_uniform:
  assumes "dashed r \<le> d"
  shows "remove_depth r t \<le> need_of (\<lambda>nm. d) (2 * d + 5) t"
  unfolding remove_depth_def
proof (rule need_of_mono)
  show "extensions nm r \<le> d" for nm using extensions_le_dashed [of nm r] assms by simp
  show "update_depth r \<le> 2 * d + 5" using assms by (simp add: update_depth_def)
qed

lemma run_call_finishes:
  assumes "dashed r \<le> d"
    and "Suc (max (need_of (\<lambda>nm. d) (2 * d + 5) (target_of c)) (2 * d + 7)) \<le> n"
  shows "\<exists>r'. run_call n c r = Some r' \<and> dashed r' \<le> Suc (dashed r)"
proof (cases c)
  case (Add u f nm cu p)
  have "add_depth r nm \<le> n"
    using need_of_uniform [OF assms(1), of "target_of c"] assms Add
    by (simp add: add_depth_def update_depth_def)
  from add_actor_finishes [OF this] Add show ?thesis by simp
next
  case (Remove t f)
  have "remove_depth r t \<le> n"
    using need_of_uniform [OF assms(1), of t] assms(2) Remove by simp
  from remove_actor_finishes [OF this] obtain b r' where
    rm: "remove_actor n t f r = Returned b r'" by blast
  with dashed_mono [OF remove_actor_keys_le [OF rm]] Remove show ?thesis
    by (simp add: left_by_def)
qed

lemma run_finishes_uniform:
  assumes "dashed r + length cs \<le> d"
    and "\<forall>c\<in>set cs. Suc (max (need_of (\<lambda>nm. d) (2 * d + 5) (target_of c)) (2 * d + 7)) \<le> n"
  shows "\<exists>r'. run n cs r = Some r'"
  using assms
proof (induction cs arbitrary: r)
  case Nil
  then show ?case by simp
next
  case (Cons c cs)
  from Cons.prems have "dashed r \<le> d" by simp
  from run_call_finishes [OF this] Cons.prems(2) obtain r1 where
    one: "run_call n c r = Some r1" and d1: "dashed r1 \<le> Suc (dashed r)"
    by (metis list.set_intros(1))
  with Cons.prems have "dashed r1 + length cs \<le> d" by simp
  from Cons.IH [OF this] Cons.prems(2) obtain r' where "run n cs r1 = Some r'" by auto
  with one show ?case by simp
qed

lemma run_finishes:
  assumes "run_depth r cs \<le> n"
  shows "\<exists>r'. run n cs r = Some r'"
proof (rule run_finishes_uniform [where d = "dashed r + length cs"])
  let ?d = "dashed r + length cs"
  let ?g = "\<lambda>c. need_of (\<lambda>nm. ?d) (2 * ?d + 5) (target_of c)"
  from assms have "fold max (map ?g cs) (2 * ?d + 7) < n"
    by (simp add: run_depth_def Let_def)
  then have "2 * ?d + 7 < n" and "\<forall>x\<in>set (map ?g cs). x < n"
    using fold_max_le [of "map ?g cs" "2 * ?d + 7" "n - 1"] by auto
  then show "\<forall>c\<in>set cs. Suc (max (?g c) (2 * ?d + 7)) \<le> n" by auto
qed simp

text \<open>
  Claim C6. Assigning an explicit \<^verbatim>\<open>[position, focal_point, view_up]\<close> triple to
  \<^verbatim>\<open>camera_position\<close> sets the camera-set flag. Every sequence of \<^verbatim>\<open>add_actor\<close> and
  \<^verbatim>\<open>remove_actor\<close> calls that follows, none of them with \<^verbatim>\<open>reset_camera=True\<close>, runs to
  its end (whether a call returns or raises), and after it the flag is still set, no
  camera refit has happened, position, focal point and view-up are the ones assigned,
  and every \<^verbatim>\<open>add_actor\<close> has asked for a redraw.
\<close>

theorem camera_set_stops_refit:
  assumes "r0 = set_camera_position (Some (pos, focal, up)) r"
    and "list_all (\<lambda>c. reset_of c \<noteq> RcTrue) cs"
    and "run_depth r0 cs \<le> n"
  shows "camera_set r0 \<and>
         (\<exists>r'. run n cs r0 = Some r' \<and> camera_set r' \<and> fits r' = fits r0 \<and>
            position (camera r') = position (camera r0) \<and>
            focal_point (camera r') = focal_point (camera r0) \<and>
            view_up (camera r') = up \<and>
            renders (parent r0) + length (filter is_add cs) \<le> renders (parent r'))"
proof -
  have cs0: "camera_set r0" and up0: "view_up (camera r0) = up"
    using assms(1)
    by (simp_all add: set_camera_position_def Let_def ResetCameraClippingRange_def)
  from run_finishes [OF assms(3)] obtain r' where run: "run n cs r0 = Some r'" by blast
  from run_framing [OF assms(2) cs0 run] cs0 up0 run show ?thesis
    by (simp add: framing_kept_def)
qed

theorem camera_set_stops_refit_witness:
  "list_all (\<lambda>c. reset_of c \<noteq> RcTrue)
     [Add (UActor actor_A) RcFalse (Some ''a'') (CullBool False) True,
      Add (UActor actor_B) RcNone (Some ''a-1'') (CullStr ''sideways'') True,
      Remove (Name ''a'') RcNone] \<and>
   run_depth (set_camera_position (Some ((1, 2, 3), (0, 0, 0), (0, 0, 1))) fresh)
     [Add (UActor actor_A) RcFalse (Some ''a'') (CullBool False) True,
      Add (UActor actor_B) RcNone (Some ''a-1'') (CullStr ''sideways'') True,
      Remove (Name ''a'') RcNone] \<le> 25 \<and>
   (\<exists>r'. run 25
            [Add (UActor actor_A) RcFalse (Some ''a'') (CullBool False) True,
             Add (UActor actor_B) RcNone (Some ''a-1'') (CullStr ''sideways'') True,
             Remove (Name ''a'') RcNone]
            (set_camera_position (Some ((1, 2, 3), (0, 0, 0), (0, 0, 1))) fresh) = Some r' \<and>
          camera_set r' \<and>
          fits r' = fits (set_camera_position (Some ((1, 2, 3), (0, 0, 0), (0, 0, 1))) fresh) \<and>
          position (camera r') = (1, 2, 3) \<and> focal_point (camera r') = (0, 0, 0) \<and>
          view_up (camera r') = (0, 0, 1))"
proof -
  let ?cs = "[Add (UActor actor_A) RcFalse (Some ''a'') (CullBool False) True,
              Add (UActor actor_B) RcNone (Some ''a-1'') (CullStr ''sideways'') True,
              Remove (Name ''a'') RcNone]"
  let ?r0 = "set_camera_position (Some ((1, 2, 3), (0, 0, 0), (0, 0, 1))) fresh"
  have flags: "list_all (\<lambda>c. reset_of c \<noteq> RcTrue) ?cs" by simp
  have depth: "run_depth ?r0 ?cs \<le> 25" by code_simp
  have pos: "position (camera ?r0) = (1, 2, 3)" "focal_point (camera ?r0) = (0, 0, 0)"
    by (simp_all add: run_defs)
  from camera_set_stops_refit [OF refl flags depth] flags depth pos show ?thesis
    by auto
qed

subsection \<open>The scale set by \<^verbatim>\<open>set_scale\<close>\<close>

lemma set_scale_finishes:
  assumes "update_depth r \<le> n"
  shows "\<exists>r'. set_scale n xs ys zs reset r = Returned () r'"
proof (cases reset)
  case False
  then show ?thesis by (simp add: set_scale_def Let_def split: prod.splits)
next
  case True
  obtain sx sy sz where sc: "scale r = (sx, sy, sz)" by (cases "scale r")
  let ?x = "case xs of None \<Rightarrow> sx | Some v \<Rightarrow> v"
  let ?y = "case ys of None \<Rightarrow> sy | Some v \<Rightarrow> v"
  let ?z = "case zs of None \<Rightarrow> sz | Some v \<Rightarrow> v"
  let ?r2 = "render (r\<lparr>scale := (?x, ?y, ?z),
                 camera := (camera r)\<lparr>model_transform := (?x, ?y, ?z)\<rparr>\<rparr>)"
  have "dashed ?r2 = dashed r" by (rule dashed_same) (simp add: render_def)
  with assms have "update_depth ?r2 \<le> n" by (simp add: update_depth_def)
  from update_bounds_axes_finishes [OF this] obtain r3 where
    "update_bounds_axes n ?r2 = Returned () r3" by blast
  with True sc show ?thesis by (simp add: set_scale_def Let_def)
qed

lemma set_scale_scale:
  assumes "set_scale n xs ys zs reset r = Returned u r'"
  shows "scale r' =
           (case xs of None \<Rightarrow> fst (scale r) | Some v \<Rightarrow> v,
            case ys of None \<Rightarrow> fst (snd (scale r)) | Some v \<Rightarrow> v,
            case zs of None \<Rightarrow> snd (snd (scale r)) | Some v \<Rightarrow> v)"
proof (cases reset)
  case False
  obtain sx sy sz where sc: "scale r = (sx, sy, sz)" by (cases "scale r")
  with assms False show ?thesis
    by (auto simp: set_scale_def render_def Let_def split: option.splits)
next
  case True
  obtain sx sy sz where sc: "scale r = (sx, sy, sz)" by (cases "scale r")
  let ?x = "case xs of None \<Rightarrow> sx | Some v \<Rightarrow> v"
  let ?y = "case ys of None \<Rightarrow> sy | Some v \<Rightarrow> v"
  let ?z = "case zs of None \<Rightarrow> sz | Some v \<Rightarrow> v"
  let ?r2 = "render (r\<lparr>scale := (?x, ?y, ?z),
                 camera := (camera r)\<lparr>model_transform := (?x, ?y, ?z)\<rparr>\<rparr>)"
  from assms True sc obtain r3 where u: "update_bounds_axes n ?r2 = Returned () r3"
    and r': "r' = reset_camera r3"
    by (auto simp: set_scale_def Let_def seq_def split: outcome.splits)
  from update_bounds_axes_camera [OF u] r' sc show ?thesis
    by (simp add: reset_camera_def render_def ResetCamera_def split: option.splits)
qed

text \<open>
  Claim C7. \<^verbatim>\<open>set_scale(2, 1, 1)\<close> returns, whatever its \<^verbatim>\<open>reset_camera\<close>, and after it
  \<^verbatim>\<open>scale_point(camera, scale_point(camera, p, invert=False), invert=True)\<close> is \<open>p\<close>, for
  every point \<open>p\<close>, in exact arithmetic.
\<close>

theorem scale_point_round_trip:
  assumes "update_depth r \<le> n"
  shows "\<exists>r'. set_scale n (Some 2) (Some 1) (Some 1) reset r = Returned () r' \<and>
           (\<forall>p. scale_point (camera r') (scale_point (camera r') p False) True = p)"
proof -
  from set_scale_finishes [OF assms] obtain r' where
    s: "set_scale n (Some 2) (Some 1) (Some 1) reset r = Returned () r'" by blast
  have "scale_point (camera r') (scale_point (camera r') p False) True = p" for p
    using set_scale_transform [OF s] by (cases p) (simp add: scale_point_def)
  with s show ?thesis by blast
qed

theorem scale_point_round_trip_witness:
  "update_depth scene_box \<le> 5 \<and>
   (\<exists>r'. set_scale 5 (Some 2) (Some 1) (Some 1) True scene_box = Returned () r' \<and>
      scale_point (camera r') (scale_point (camera r') (3, 4, 5) False) True = (3, 4, 5))"
proof -
  have d: "update_depth scene_box \<le> 5" by code_simp
  from scale_point_round_trip [OF d, of True] d show ?thesis by blast
qed

text \<open>
  Claim C5 fails on the code: \<^verbatim>\<open>set_scale(0)\<close>, whatever its \<^verbatim>\<open>reset_camera\<close>, returns
  with the zero stored in \<^verbatim>\<open>self.scale\<close> and in the camera's model-transform matrix; the
  unspecified axes keep their values.
\<close>

theorem set_scale_keeps_zero:
  assumes "update_depth r \<le> n"
  shows "\<exists>r'. set_scale n (Some 0) None None reset r = Returned () r' \<and>
           scale r' = (0, fst (snd (scale r)), snd (snd (scale r))) \<and>
           model_transform (camera r') = (0, fst (snd (scale r)), snd (snd (scale r)))"
proof -
  from set_scale_finishes [OF assms] obtain r' where
    s: "set_scale n (Some 0) None None reset r = Returned () r'" by blast
  from set_scale_scale [OF s] set_scale_transform [OF s] s show ?thesis by simp
qed

theorem set_scale_keeps_zero_witness:
  "update_depth fresh \<le> 5 \<and>
   (\<exists>r'. set_scale 5 (Some 0) None None True fresh = Returned () r' \<and>
      scale r' = (0, 1, 1) \<and> model_transform (camera r') = (0, 1, 1))"
proof -
  have d: "update_depth fresh \<le> 5" by code_simp
  have s: "scale fresh = (1, 1, 1)" by (simp add: fresh_def init_def)
  from set_scale_keeps_zero [OF d, of True] d s show ?thesis by simp
qed

subsection \<open>Removing an actor that is not registered\<close>








subsection \<open>An unrecognised culling option\<close>


lemma props_update_cube_axes [simp]: "props (update_cube_axes r) = props r"
  by (simp add: update_cube_axes_def split: option.splits prod.splits)





subsection \<open>Adding under a name that is in use\<close>









end
